theory Spec2Isabelle
  imports Complex_Main "HOL-Library.Word" "HOL-Library.Multiset" "HOL-Library.Monad_Syntax"
    "HOL-Library.Signed_Division" "HOL-Library.Log_Nat"
begin

unbundle bit_operations_syntax

section \<open>The caller's sequence: \<open>heap.Interface\<close> over a slice\<close>

text \<open>
  The package works on any value \<open>h\<close> implementing \<open>heap.Interface\<close>
  (\<open>Len\<close>, \<open>Less\<close>, \<open>Swap\<close>, \<open>Push\<close>, \<open>Pop\<close>).  The model is the slice-backed
  implementation of the test file (\<open>intHeap\<close>), generalised in the element type: the
  elements are of any type \<open>'a\<close> and \<open>Less\<close> compares them through a key function
  \<open>kf\<close> into a linear order, so two different elements may compare as equivalent
  (a strict weak ordering).  Indices are Go \<open>int\<close>s, modelled as \<open>int\<close>; an index
  outside the slice makes \<open>Less\<close> and \<open>Swap\<close> panic, which is the value \<open>None\<close>.
  The field \<open>nswaps\<close> is a ghost counter of the \<open>Swap\<close> calls made so far; the Go value
  has no such field.  \<open>h_Len\<close>, \<open>h_Less\<close>, \<open>h_Swap\<close>, \<open>h_Push\<close> and \<open>h_Pop\<close> are the
  methods \<open>h.Len()\<close>, ..., \<open>h.Pop()\<close>.
\<close>

record 'a heap =
  items :: "'a list"
  nswaps :: nat

definition h_Len :: "'a heap \<Rightarrow> int" where
  "h_Len h = int (length (items h))"

definition in_range :: "'a heap \<Rightarrow> int \<Rightarrow> bool" where
  "in_range h i = (0 \<le> i \<and> i < h_Len h)"

definition h_Less :: "('a \<Rightarrow> 'k::linorder) \<Rightarrow> 'a heap \<Rightarrow> int \<Rightarrow> int \<Rightarrow> bool option" where
  "h_Less kf h i j =
     (if in_range h i \<and> in_range h j
      then Some (kf (items h ! nat i) < kf (items h ! nat j))
      else None)"

definition h_Swap :: "'a heap \<Rightarrow> int \<Rightarrow> int \<Rightarrow> 'a heap option" where
  "h_Swap h i j =
     (if in_range h i \<and> in_range h j
      then Some (h\<lparr>items := (items h)[nat i := items h ! nat j, nat j := items h ! nat i],
                   nswaps := Suc (nswaps h)\<rparr>)
      else None)"

definition h_Push :: "'a heap \<Rightarrow> 'a \<Rightarrow> 'a heap" where
  "h_Push h x = h\<lparr>items := items h @ [x]\<rparr>"

definition h_Pop :: "'a heap \<Rightarrow> ('a \<times> 'a heap) option" where
  "h_Pop h =
     (if items h = [] then None
      else Some (last (items h), h\<lparr>items := butlast (items h)\<rparr>))"

section \<open>Level parity and index arithmetic\<close>

text \<open>
  \<open>bits.LeadingZeros\<close> on a 64-bit \<open>uint\<close>: the number of zero bits above the
  highest set bit, 64 for the word 0.
\<close>

fun lz_count :: "64 word \<Rightarrow> nat \<Rightarrow> nat" where
  "lz_count x 0 = 0"
| "lz_count x (Suc k) = (if bit x k then 0 else Suc (lz_count x k))"

definition LeadingZeros :: "64 word \<Rightarrow> int" where
  "LeadingZeros x = int (lz_count x 64)"

text \<open>
  \<open>uint(index+1)\<close> is the 64-bit word of the sum, whether or not the sum wrapped:
  \<open>word_of_int\<close>.
\<close>

definition isMinLevel :: "int \<Rightarrow> bool" where
  "isMinLevel index = (LeadingZeros (word_of_int (index + 1)) AND 1 = 1)"

definition hasParent :: "int \<Rightarrow> bool" where
  "hasParent index = (index > 0)"

text \<open>Go's \<open>/\<close> on \<open>int\<close> truncates towards zero: it is \<open>sdiv\<close>.\<close>

definition parent :: "int \<Rightarrow> int" where
  "parent index = (index - 1) sdiv 2"

definition hasGrandparent :: "int \<Rightarrow> bool" where
  "hasGrandparent index = (index > 2)"

definition grandparent :: "int \<Rightarrow> int" where
  "grandparent index = parent (parent index)"

lemma parent_pos: "0 < i \<Longrightarrow> parent i = (i - 1) div 2"
  by (simp add: parent_def signed_divide_int_def sgn_if)

section \<open>Sifting\<close>

datatype relation = self | child | grandchild

record progeny =
  index :: int
  relation :: relation

text \<open>
  Go's \<open>int\<close> is 64 bits wide here and its arithmetic wraps around in two's complement;
  \<open>wrap64\<close> is that wrap-around.  It is written out in the index arithmetic of \<open>down\<close>,
  the only place where an index that the sequence can hold may leave the range
  (\<open>index - 1\<close> in \<open>parent\<close> wraps for the least \<open>int\<close> alone, where \<open>up\<close> does not use
  the result).
\<close>

definition wrap64 :: "int \<Rightarrow> int" where
  "wrap64 x = signed_take_bit 63 x"

text \<open>The six candidates of one iteration of \<open>down\<close>, in the order of the array literal.\<close>

definition progenies :: "int \<Rightarrow> progeny list" where
  "progenies on =
     (let l = wrap64 (2 * on + 1); r = wrap64 (l + 1);
          ll = wrap64 (2 * l + 1); lr = wrap64 (ll + 1);
          rl = wrap64 (2 * r + 1); rr = wrap64 (rl + 1)
      in [\<lparr>index = l, relation = child\<rparr>, \<lparr>index = r, relation = child\<rparr>,
          \<lparr>index = ll, relation = grandchild\<rparr>, \<lparr>index = lr, relation = grandchild\<rparr>,
          \<lparr>index = rl, relation = grandchild\<rparr>, \<lparr>index = rr, relation = grandchild\<rparr>])"

text \<open>The inner \<open>for ... range\<close> loop of \<open>down\<close>; it leaves at the first candidate out of range.\<close>

fun select :: "('a \<Rightarrow> 'k::linorder) \<Rightarrow> 'a heap \<Rightarrow> int \<Rightarrow> bool \<Rightarrow> progeny list \<Rightarrow> progeny
    \<Rightarrow> progeny option" where
  "select kf h n onMinLevel [] smallest = Some smallest"
| "select kf h n onMinLevel (p # ps) smallest =
     (if index p \<ge> n \<or> index p < 0 then Some smallest
      else do {
        b \<leftarrow> h_Less kf h (index p) (index smallest);
        select kf h n onMinLevel ps (if onMinLevel = b then p else smallest)
      })"

lemma wrap64_id: "- (2 ^ 63) \<le> x \<Longrightarrow> x < 2 ^ 63 \<Longrightarrow> wrap64 x = x"
  unfolding wrap64_def by (rule signed_take_bit_int_eq_self)

lemma wrap64_range: "- (2 ^ 63) \<le> wrap64 x \<and> wrap64 x < 2 ^ 63"
  unfolding wrap64_def
  using signed_take_bit_int_greater_eq_minus_exp[of 63 x] signed_take_bit_int_less_exp[of 63 x]
  by blast

lemma wrap64_cases:
  assumes "0 \<le> x" "x < 2 ^ 64"
  shows "wrap64 x = x \<or> wrap64 x < 0"
proof (cases "x < 2 ^ 63")
  case True
  with assms show ?thesis by (simp add: wrap64_id)
next
  case False
  then have "signed_take_bit 63 x \<le> x - 2 ^ Suc 63"
    by (intro signed_take_bit_int_less_eq) simp
  moreover have "(2::int) ^ Suc 63 = 2 ^ 64" by simp
  ultimately have "wrap64 x < 0"
    unfolding wrap64_def using assms(2) by linarith
  then show ?thesis ..
qed

text \<open>A candidate that the inner loop reaches and accepts comes after accepted ones only.\<close>

lemma select_index:
  "select kf h n m ps s0 = Some s \<Longrightarrow>
     s = s0 \<or> (\<exists>i < length ps. s = ps ! i \<and> (\<forall>j \<le> i. 0 \<le> index (ps ! j) \<and> index (ps ! j) < n))"
proof (induction ps arbitrary: s0)
  case Nil
  then show ?case by simp
next
  case (Cons p ps)
  show ?case
  proof (cases "index p \<ge> n \<or> index p < 0")
    case True
    with Cons.prems show ?thesis by simp
  next
    case False
    with Cons.prems obtain b where
      rec: "select kf h n m ps (if m = b then p else s0) = Some s"
      by (auto split: bind_splits)
    from Cons.IH[OF rec] consider "s = s0" | "s = p"
      | i where "i < length ps" "s = ps ! i" "\<forall>j \<le> i. 0 \<le> index (ps ! j) \<and> index (ps ! j) < n"
      by (auto split: if_splits)
    then show ?thesis
    proof cases
      case 1
      then show ?thesis by simp
    next
      case 2
      with False have "0 < length (p # ps) \<and> s = (p # ps) ! 0
          \<and> (\<forall>j \<le> 0. 0 \<le> index ((p # ps) ! j) \<and> index ((p # ps) ! j) < n)"
        by simp
      then show ?thesis by blast
    next
      case 3
      have "\<forall>j \<le> Suc i. 0 \<le> index ((p # ps) ! j) \<and> index ((p # ps) ! j) < n"
      proof (intro allI impI)
        fix j assume "j \<le> Suc i"
        with 3(3) False show "0 \<le> index ((p # ps) ! j) \<and> index ((p # ps) ! j) < n"
          by (cases j) auto
      qed
      with 3(1,2) have "Suc i < length (p # ps) \<and> s = (p # ps) ! Suc i
          \<and> (\<forall>j \<le> Suc i. 0 \<le> index ((p # ps) ! j) \<and> index ((p # ps) ! j) < n)"
        by simp
      then show ?thesis by blast
    qed
  qed
qed

text \<open>
  Of a non-negative \<open>int\<close> index \<open>on\<close>, every candidate that is reached and accepted lies
  below \<open>on\<close> in the sequence: its index arithmetic did not wrap.
\<close>

lemma progenies_accepted:
  assumes on: "0 \<le> on" "on < 2 ^ 63"
    and i: "i < length (progenies on)"
    and acc: "\<forall>j \<le> i. 0 \<le> index (progenies on ! j)"
  shows "on < index (progenies on ! i)"
proof -
  define l where "l = wrap64 (2 * on + 1)"
  define r where "r = wrap64 (l + 1)"
  define ll where "ll = wrap64 (2 * l + 1)"
  define lr where "lr = wrap64 (ll + 1)"
  define rl where "rl = wrap64 (2 * r + 1)"
  define rr where "rr = wrap64 (rl + 1)"
  have P: "progenies on = [\<lparr>index = l, relation = child\<rparr>, \<lparr>index = r, relation = child\<rparr>,
          \<lparr>index = ll, relation = grandchild\<rparr>, \<lparr>index = lr, relation = grandchild\<rparr>,
          \<lparr>index = rl, relation = grandchild\<rparr>, \<lparr>index = rr, relation = grandchild\<rparr>]"
    by (simp add: progenies_def Let_def l_def r_def ll_def lr_def rl_def rr_def)
  have step2: "wrap64 (2 * a + 1) = 2 * a + 1"
    if "0 \<le> a" "a < 2 ^ 63" "0 \<le> wrap64 (2 * a + 1)" for a
  proof -
    from that(1,2) have "0 \<le> 2 * a + 1" "2 * a + 1 < 2 ^ 64" by simp_all
    from wrap64_cases[OF this] that(3) show ?thesis by linarith
  qed
  have step1: "wrap64 (a + 1) = a + 1"
    if "0 \<le> a" "a < 2 ^ 63" "0 \<le> wrap64 (a + 1)" for a
  proof -
    from that(1,2) have "0 \<le> a + 1" "a + 1 < 2 ^ 64" by simp_all
    from wrap64_cases[OF this] that(3) show ?thesis by linarith
  qed
  have lt: "\<And>x. wrap64 x < 2 ^ 63" using wrap64_range by blast
  from i P have "i < 6" by simp
  then consider "i = 0" | "i = 1" | "i = 2" | "i = 3" | "i = 4" | "i = 5" by linarith
  then show ?thesis
  proof cases
    case 1
    with acc P have "0 \<le> l" by simp
    then have "l = 2 * on + 1" unfolding l_def using step2 on by blast
    with 1 P on show ?thesis by simp
  next
    case 2
    with acc P have "0 \<le> l" "0 \<le> r" using acc[rule_format, of 0] acc[rule_format, of 1] by simp_all
    then have "l = 2 * on + 1" "r = l + 1"
      unfolding l_def r_def using step2 step1 on lt by blast+
    with 2 P on show ?thesis by simp
  next
    case 3
    with acc P have "0 \<le> l" "0 \<le> ll" using acc[rule_format, of 0] acc[rule_format, of 2] by simp_all
    then have "l = 2 * on + 1" "ll = 2 * l + 1"
      unfolding l_def ll_def using step2 on lt by blast+
    with 3 P on show ?thesis by simp
  next
    case 4
    with acc P have "0 \<le> l" "0 \<le> ll" "0 \<le> lr"
      using acc[rule_format, of 0] acc[rule_format, of 2] acc[rule_format, of 3] by simp_all
    then have "l = 2 * on + 1" "ll = 2 * l + 1" "lr = ll + 1"
      unfolding l_def ll_def lr_def using step2 step1 on lt by blast+
    with 4 P on show ?thesis by simp
  next
    case 5
    with acc P have "0 \<le> l" "0 \<le> r" "0 \<le> rl"
      using acc[rule_format, of 0] acc[rule_format, of 1] acc[rule_format, of 4] by simp_all
    then have "l = 2 * on + 1" "r = l + 1" "rl = 2 * r + 1"
      unfolding l_def r_def rl_def using step2 step1 on lt by blast+
    with 5 P on show ?thesis by simp
  next
    case 6
    with acc P have "0 \<le> l" "0 \<le> r" "0 \<le> rl" "0 \<le> rr"
      using acc[rule_format, of 0] acc[rule_format, of 1] acc[rule_format, of 4]
        acc[rule_format, of 5] by simp_all
    then have "l = 2 * on + 1" "r = l + 1" "rl = 2 * r + 1" "rr = rl + 1"
      unfolding l_def r_def rl_def rr_def using step2 step1 on lt by blast+
    with 6 P on show ?thesis by simp
  qed
qed

lemma progenies_index_range: "p \<in> set (progenies on) \<Longrightarrow> index p < 2 ^ 63"
  using wrap64_range by (auto simp: progenies_def Let_def)

text \<open>The outer loop of \<open>down\<close>; it returns the sequence and the final value of \<open>on\<close>.\<close>

function down_loop :: "('a \<Rightarrow> 'k::linorder) \<Rightarrow> 'a heap \<Rightarrow> int \<Rightarrow> bool \<Rightarrow> int
    \<Rightarrow> ('a heap \<times> int) option" where
  "down_loop kf h n onMinLevel on =
     do {
       smallest \<leftarrow> select kf h n onMinLevel (progenies on) \<lparr>index = on, relation = self\<rparr>;
       if relation smallest = self then Some (h, on)
       else do {
         h1 \<leftarrow> h_Swap h on (index smallest);
         if relation smallest = child then Some (h1, index smallest)
         else do {
           b \<leftarrow> h_Less kf h1 (parent (index smallest)) (index smallest);
           h2 \<leftarrow> (if onMinLevel = b then h_Swap h1 (index smallest) (parent (index smallest))
                  else Some h1);
           down_loop kf h2 n onMinLevel (index smallest)
         }
       }
     }"
  by pat_completeness auto
termination
proof (relation "measures [\<lambda>(kf, h, n, m, on). if 0 \<le> on \<and> on < 2 ^ 63 then 0 else 1,
                           \<lambda>(kf, h, n, m, on). nat (n - on)]")
  show "wf (measures [\<lambda>(kf :: 'a \<Rightarrow> 'k, h :: 'a heap, n :: int, m :: bool, on :: int).
                         if 0 \<le> on \<and> on < 2 ^ 63 then 0 else (1::nat),
                      \<lambda>(kf, h, n, m, on). nat (n - on)])"
    by simp
next
  fix kf :: "'a \<Rightarrow> 'k::linorder" and h :: "'a heap" and n :: int and onMinLevel :: bool and on :: int
    and smallest h1 b h2
  assume sel: "select kf h n onMinLevel (progenies on) \<lparr>index = on, relation = self\<rparr> = Some smallest"
    and ns: "relation smallest \<noteq> self"
  from select_index[OF sel] ns obtain i where
    i: "i < length (progenies on)" "smallest = progenies on ! i"
      "\<forall>j \<le> i. 0 \<le> index (progenies on ! j) \<and> index (progenies on ! j) < n"
    by auto
  from i have lo: "0 \<le> index smallest" and hi: "index smallest < n" by auto
  from i have "smallest \<in> set (progenies on)" by simp
  then have top: "index smallest < 2 ^ 63" by (rule progenies_index_range)
  have "on < index smallest" if "0 \<le> on" "on < 2 ^ 63"
    using progenies_accepted[OF that i(1)] i(2,3) by simp
  with lo hi top
  show "((kf, h2, n, onMinLevel, index smallest), (kf, h, n, onMinLevel, on))
      \<in> measures [\<lambda>(kf, h, n, m, on). if 0 \<le> on \<and> on < 2 ^ 63 then 0 else 1,
                  \<lambda>(kf, h, n, m, on). nat (n - on)]"
    by auto
qed

definition down :: "('a \<Rightarrow> 'k::linorder) \<Rightarrow> 'a heap \<Rightarrow> int \<Rightarrow> int \<Rightarrow> ('a heap \<times> bool) option" where
  "down kf h i0 n =
     do {
       (h', on) \<leftarrow> down_loop kf h n (isMinLevel i0) i0;
       Some (h', on > i0)
     }"

text \<open>The \<open>for hasGrandparent(on)\<close> loop of \<open>up\<close>.\<close>

function up_loop :: "('a \<Rightarrow> 'k::linorder) \<Rightarrow> 'a heap \<Rightarrow> bool \<Rightarrow> int \<Rightarrow> 'a heap option" where
  "up_loop kf h onMinLevel on =
     (if hasGrandparent on then
        do {
          b \<leftarrow> h_Less kf h on (grandparent on);
          if onMinLevel = b then
            do {
              h1 \<leftarrow> h_Swap h on (grandparent on);
              up_loop kf h1 onMinLevel (grandparent on)
            }
          else Some h
        }
      else Some h)"
  by pat_completeness auto
termination
  by (relation "measure (\<lambda>(kf, h, m, on). nat on)")
     (auto simp: hasGrandparent_def grandparent_def parent_pos)

definition up :: "('a \<Rightarrow> 'k::linorder) \<Rightarrow> 'a heap \<Rightarrow> int \<Rightarrow> 'a heap option" where
  "up kf h on =
     (let onMinLevel = isMinLevel on; p = parent on in
      if hasParent on then
        do {
          b \<leftarrow> h_Less kf h p on;
          if onMinLevel = b then
            do {
              h1 \<leftarrow> h_Swap h on p;
              up_loop kf h1 (\<not> onMinLevel) p
            }
          else up_loop kf h onMinLevel on
        }
      else up_loop kf h onMinLevel on)"

section \<open>The package functions\<close>

function Init_loop :: "('a \<Rightarrow> 'k::linorder) \<Rightarrow> 'a heap \<Rightarrow> int \<Rightarrow> int \<Rightarrow> 'a heap option" where
  "Init_loop kf h n i =
     (if i \<ge> 0 then
        do {
          (h1, moved) \<leftarrow> down kf h i n;
          Init_loop kf h1 n (i - 1)
        }
      else Some h)"
  by pat_completeness auto
termination
  by (relation "measure (\<lambda>(kf, h, n, i). nat (i + 1))") auto

definition Init :: "('a \<Rightarrow> 'k::linorder) \<Rightarrow> 'a heap \<Rightarrow> 'a heap option" where
  "Init kf h = (let n = h_Len h in Init_loop kf h n (n sdiv 2 - 1))"

definition Push :: "('a \<Rightarrow> 'k::linorder) \<Rightarrow> 'a heap \<Rightarrow> 'a \<Rightarrow> 'a heap option" where
  "Push kf h x = (let h1 = h_Push h x in up kf h1 (h_Len h1 - 1))"

definition Pop :: "('a \<Rightarrow> 'k::linorder) \<Rightarrow> 'a heap \<Rightarrow> ('a \<times> 'a heap) option" where
  "Pop kf h =
     (let n = h_Len h - 1 in
      do {
        h1 \<leftarrow> h_Swap h 0 n;
        (h2, moved) \<leftarrow> down kf h1 0 n;
        h_Pop h2
      })"

definition Remove :: "('a \<Rightarrow> 'k::linorder) \<Rightarrow> 'a heap \<Rightarrow> int \<Rightarrow> ('a \<times> 'a heap) option" where
  "Remove kf h i =
     (let n = h_Len h - 1 in
      do {
        h3 \<leftarrow> (if n \<noteq> i then
                 do {
                   h1 \<leftarrow> h_Swap h i n;
                   (h2, moved) \<leftarrow> down kf h1 i n;
                   if \<not> moved then up kf h2 i else Some h2
                 }
               else Some h);
        h_Pop h3
      })"

definition Fix :: "('a \<Rightarrow> 'k::linorder) \<Rightarrow> 'a heap \<Rightarrow> int \<Rightarrow> 'a heap option" where
  "Fix kf h i =
     do {
       (h1, moved) \<leftarrow> down kf h i (h_Len h);
       if \<not> moved then up kf h1 i else Some h1
     }"

text \<open>\<open>Max\<close> of the source; the name \<open>Max\<close> is taken in HOL.\<close>

definition Max_index :: "('a \<Rightarrow> 'k::linorder) \<Rightarrow> 'a heap \<Rightarrow> int option" where
  "Max_index kf h =
     (if h_Len h = 1 then Some 0
      else if h_Len h = 2 then Some 1
      else do {
        b \<leftarrow> h_Less kf h 1 2;
        if b then Some 2 else Some 1
      })"

text \<open>Calling \<open>Pop\<close> \<open>k\<close> times in a row, collecting the returned values in order.\<close>

fun PopN :: "('a \<Rightarrow> 'k::linorder) \<Rightarrow> 'a heap \<Rightarrow> nat \<Rightarrow> ('a list \<times> 'a heap) option" where
  "PopN kf h 0 = Some ([], h)"
| "PopN kf h (Suc k) =
     do {
       (v, h1) \<leftarrow> Pop kf h;
       (vs, h2) \<leftarrow> PopN kf h1 k;
       Some (v # vs, h2)
     }"

section \<open>The min-max heap property\<close>

text \<open>
  The depth of an index is \<open>\<lfloor>log\<^sub>2 (index + 1)\<rfloor>\<close>; \<open>floorlog 2 n\<close> is the number of binary
  digits of \<open>n\<close>, one more than that logarithm.
\<close>

definition depth :: "int \<Rightarrow> nat" where
  "depth i = floorlog 2 (nat (i + 1)) - 1"

text \<open>\<open>descendant i j\<close>: the index \<open>j\<close> lies strictly below the index \<open>i\<close> in the tree.\<close>

function descendant :: "int \<Rightarrow> int \<Rightarrow> bool" where
  "descendant i j =
     (if 0 \<le> i \<and> i < j then (j - 1) div 2 = i \<or> descendant i ((j - 1) div 2) else False)"
  by pat_completeness auto
termination
  by (relation "measure (\<lambda>(i, j). nat j)") auto

text \<open>
  What the property asks of an index \<open>i\<close> and an index \<open>j\<close> below it: on an even depth
  the key at \<open>i\<close> is at most the key at \<open>j\<close>, on an odd depth at least.
\<close>

definition ordered :: "('a \<Rightarrow> 'k::linorder) \<Rightarrow> 'a list \<Rightarrow> int \<Rightarrow> int \<Rightarrow> bool" where
  "ordered kf xs i j =
     (if even (depth i) then kf (xs ! nat i) \<le> kf (xs ! nat j)
      else kf (xs ! nat j) \<le> kf (xs ! nat i))"

definition mmheap :: "('a \<Rightarrow> 'k::linorder) \<Rightarrow> 'a list \<Rightarrow> bool" where
  "mmheap kf xs =
     (\<forall>i \<in> set [0..int (length xs) - 1]. \<forall>j \<in> set [0..int (length xs) - 1].
        descendant i j \<longrightarrow> ordered kf xs i j)"

text \<open>The key at an index, and the order that a level asks for.\<close>

definition key :: "('a \<Rightarrow> 'k) \<Rightarrow> 'a list \<Rightarrow> int \<Rightarrow> 'k" where
  "key kf xs i = kf (xs ! nat i)"

definition le_dir :: "bool \<Rightarrow> 'k::linorder \<Rightarrow> 'k \<Rightarrow> bool" where
  "le_dir m a b = (if m then a \<le> b else b \<le> a)"

text \<open>The indices one and two levels below an index.\<close>

definition children :: "int \<Rightarrow> int set" where
  "children i = {2 * i + 1, 2 * i + 2}"

definition grandchildren :: "int \<Rightarrow> int set" where
  "grandchildren i = {4 * i + 3, 4 * i + 4, 4 * i + 5, 4 * i + 6}"

text \<open>
  The property over a key function: \<open>heap_from f n k\<close> asks it of every index from \<open>k\<close>
  on and every index below \<open>n\<close> under it; \<open>heap_except f n k on\<close> leaves out the pairs
  whose upper index is \<open>on\<close>.
\<close>

definition heap_from :: "(int \<Rightarrow> 'k::linorder) \<Rightarrow> int \<Rightarrow> int \<Rightarrow> bool" where
  "heap_from f n k = (\<forall>i j. k \<le> i \<and> j < n \<and> descendant i j \<longrightarrow> le_dir (even (depth i)) (f i) (f j))"

definition heap_except :: "(int \<Rightarrow> 'k::linorder) \<Rightarrow> int \<Rightarrow> int \<Rightarrow> int \<Rightarrow> bool" where
  "heap_except f n k on =
     (\<forall>i j. k \<le> i \<and> i \<noteq> on \<and> j < n \<and> descendant i j \<longrightarrow> le_dir (even (depth i)) (f i) (f j))"

text \<open>What one run of the outer loop of \<open>down\<close> from \<open>on\<close> achieves.\<close>

definition sifted_down :: "('a \<Rightarrow> 'k::linorder) \<Rightarrow> 'a heap \<Rightarrow> int \<Rightarrow> bool \<Rightarrow> int \<Rightarrow> 'a heap \<Rightarrow> int \<Rightarrow> bool" where
  "sifted_down kf h n m on h' on' =
     (h_Len h' = h_Len h
      \<and> mset (items h') = mset (items h)
      \<and> on \<le> on'
      \<and> (on' = on \<longrightarrow> h' = h)
      \<and> (\<forall>j. 0 \<le> j \<and> (j < on \<or> n \<le> j) \<longrightarrow> items h' ! nat j = items h ! nat j)
      \<and> (\<forall>k. k \<le> on \<and> m = even (depth on) \<and> heap_except (key kf (items h)) n k on
            \<longrightarrow> heap_from (key kf (items h')) n k))"

text \<open>
  \<open>tie_free kf xs i\<close>: no child, grandchild, parent or grandparent of \<open>i\<close> in the sequence
  has a key equal to the key at \<open>i\<close>.
\<close>

definition tie_free :: "('a \<Rightarrow> 'k::linorder) \<Rightarrow> 'a list \<Rightarrow> int \<Rightarrow> bool" where
  "tie_free kf xs i =
     (\<forall>j \<in> set [0..int (length xs) - 1].
        (j \<in> children i \<union> grandchildren i \<or> i \<in> children j \<union> grandchildren j)
          \<longrightarrow> kf (xs ! nat j) \<noteq> kf (xs ! nat i))"

text \<open>
  The property while an element moves up: \<open>up_except f n m on\<close> leaves out the pairs
  whose lower index is \<open>on\<close> and whose upper index lies on a level of parity \<open>m\<close>;
  \<open>heap_but f n on\<close> leaves out every pair whose lower index is \<open>on\<close>.
\<close>

definition up_except :: "(int \<Rightarrow> 'k::linorder) \<Rightarrow> int \<Rightarrow> bool \<Rightarrow> int \<Rightarrow> bool" where
  "up_except f n m on =
     (\<forall>i j. 0 \<le> i \<and> j < n \<and> descendant i j \<and> \<not> (j = on \<and> even (depth i) = m)
        \<longrightarrow> le_dir (even (depth i)) (f i) (f j))"

definition heap_but :: "(int \<Rightarrow> 'k::linorder) \<Rightarrow> int \<Rightarrow> int \<Rightarrow> bool" where
  "heap_but f n on =
     (\<forall>i j. 0 \<le> i \<and> j < n \<and> descendant i j \<and> j \<noteq> on
        \<longrightarrow> le_dir (even (depth i)) (f i) (f j))"

section \<open>The tree of indices\<close>

declare descendant.simps [simp del]

lemma le_dir_refl [simp]: "le_dir m a a"
  by (simp add: le_dir_def)

lemma le_dir_trans: "le_dir m a b \<Longrightarrow> le_dir m b c \<Longrightarrow> le_dir m a c"
  by (auto simp: le_dir_def)

lemma le_dir_flip: "le_dir (\<not> m) a b = le_dir m b a"
  by (simp add: le_dir_def)

lemma le_dir_sel: "m = (a < b) \<Longrightarrow> le_dir m a b"
  by (auto simp: le_dir_def)

lemma le_dir_not_sel: "m \<noteq> (a < b) \<Longrightarrow> le_dir m b a"
  by (auto simp: le_dir_def)

lemma descendant_less: "descendant i j \<Longrightarrow> 0 \<le> i \<and> i < j"
  by (subst (asm) descendant.simps) (simp split: if_splits)

lemma descendant_up:
  "descendant i j \<longleftrightarrow> 0 \<le> i \<and> i < j \<and> ((j - 1) div 2 = i \<or> descendant i ((j - 1) div 2))"
  by (subst descendant.simps) auto

lemma descendant_ge: "descendant i j \<Longrightarrow> 2 * i + 1 \<le> j"
proof (induction i j rule: descendant.induct)
  case (1 i j)
  from "1.prems" have lt: "0 \<le> i" "i < j"
    and d: "(j - 1) div 2 = i \<or> descendant i ((j - 1) div 2)"
    using descendant_up[of i j] by auto
  from d show ?case
  proof
    assume "(j - 1) div 2 = i"
    then show ?thesis by linarith
  next
    assume a: "descendant i ((j - 1) div 2)"
    with lt d have "2 * i + 1 \<le> (j - 1) div 2" using "1.IH" descendant_less[OF a] by auto
    with lt show ?thesis by linarith
  qed
qed

lemma descendant_of_left: "0 \<le> on \<Longrightarrow> descendant i (2 * on + 1) \<longleftrightarrow> 0 \<le> i \<and> (i = on \<or> descendant i on)"
  using descendant_less[of i on] by (subst descendant_up) auto

lemma descendant_of_right: "0 \<le> on \<Longrightarrow> descendant i (2 * on + 2) \<longleftrightarrow> 0 \<le> i \<and> (i = on \<or> descendant i on)"
  using descendant_less[of i on] by (subst descendant_up) auto

lemma descendant_of_child:
  "0 \<le> on \<Longrightarrow> c \<in> children on \<Longrightarrow> descendant i c \<longleftrightarrow> 0 \<le> i \<and> (i = on \<or> descendant i on)"
  by (auto simp: children_def descendant_of_left descendant_of_right)

lemma descendant_down:
  "0 \<le> i \<Longrightarrow> descendant i j \<longleftrightarrow> j \<in> children i \<or> (\<exists>c \<in> children i. descendant c j)"
proof (induction i j rule: descendant.induct)
  case (1 i j)
  show ?case
  proof (cases "i < j")
    case False
    then have "\<not> descendant i j" using descendant_less by blast
    moreover have "j \<notin> children i" using False "1.prems" by (auto simp: children_def)
    moreover have "\<not> (\<exists>c \<in> children i. descendant c j)"
      using False "1.prems" descendant_less by (fastforce simp: children_def)
    ultimately show ?thesis by blast
  next
    case True
    let ?p = "(j - 1) div 2"
    have pj: "j = 2 * ?p + 1 \<or> j = 2 * ?p + 2" by presburger
    have par: "?p = i \<longleftrightarrow> j \<in> children i" by (auto simp: children_def)
    show ?thesis
    proof (cases "?p = i")
      case True
      with par \<open>i < j\<close> "1.prems" show ?thesis by (subst descendant_up) simp
    next
      case False
      with par have nj: "j \<notin> children i" by simp
      have IH: "descendant i ?p \<longleftrightarrow> ?p \<in> children i \<or> (\<exists>c \<in> children i. descendant c ?p)"
        using "1.IH" "1.prems" True False by simp
      have "descendant i j \<longleftrightarrow> descendant i ?p"
        using "1.prems" True False by (subst descendant_up) simp
      also have "\<dots> \<longleftrightarrow> (\<exists>c \<in> children i. c = ?p \<or> descendant c ?p)"
        using IH by auto
      also have "\<dots> \<longleftrightarrow> (\<exists>c \<in> children i. descendant c j)"
      proof -
        have "(c = ?p \<or> descendant c ?p) \<longleftrightarrow> descendant c j" if "c \<in> children i" for c
        proof -
          from that "1.prems" have c0: "0 \<le> c" by (auto simp: children_def)
          have "c < j" if "c = ?p \<or> descendant c ?p"
          proof -
            from that have "c \<le> ?p" using descendant_less[of c ?p] by auto
            with True "1.prems" show ?thesis by linarith
          qed
          with c0 show ?thesis by (subst (2) descendant_up) auto
        qed
        then show ?thesis by blast
      qed
      finally show ?thesis using nj by simp
    qed
  qed
qed

lemma grandchildren_children: "grandchildren i = (\<Union>c \<in> children i. children c)"
  by (auto simp: grandchildren_def children_def)

lemma descendant_down2:
  assumes "0 \<le> i"
  shows "descendant i j \<longleftrightarrow>
    j \<in> children i \<or> j \<in> grandchildren i \<or> (\<exists>g \<in> grandchildren i. descendant g j)"
proof -
  have c0: "0 \<le> c" if "c \<in> children i" for c using that assms by (auto simp: children_def)
  have "descendant i j \<longleftrightarrow> j \<in> children i \<or> (\<exists>c \<in> children i. descendant c j)"
    by (rule descendant_down[OF assms])
  also have "\<dots> \<longleftrightarrow> j \<in> children i
      \<or> (\<exists>c \<in> children i. j \<in> children c \<or> (\<exists>g \<in> children c. descendant g j))"
    using descendant_down[OF c0] by blast
  also have "\<dots> \<longleftrightarrow> j \<in> children i \<or> j \<in> grandchildren i \<or> (\<exists>g \<in> grandchildren i. descendant g j)"
    unfolding grandchildren_children by blast
  finally show ?thesis .
qed

lemma descendant_trans: "descendant i j \<Longrightarrow> descendant j k \<Longrightarrow> descendant i k"
proof (induction j k rule: descendant.induct)
  case (1 j k)
  from "1.prems"(2) have jk: "0 \<le> j" "j < k" "(k - 1) div 2 = j \<or> descendant j ((k - 1) div 2)"
    using descendant_up[of j k] by auto
  from "1.prems"(1) have ij: "0 \<le> i" "i < j" using descendant_less by auto
  from jk(3) have "descendant i ((k - 1) div 2)"
  proof
    assume "(k - 1) div 2 = j"
    with "1.prems"(1) show ?thesis by simp
  next
    assume "descendant j ((k - 1) div 2)"
    with "1.IH" "1.prems"(1) jk show ?thesis by simp
  qed
  with ij jk show ?case by (subst descendant_up) simp
qed

lemma descendant_root: "0 < j \<Longrightarrow> descendant 0 j"
proof (induction "nat j" arbitrary: j rule: less_induct)
  case less
  show ?case
  proof (cases "(j - 1) div 2 = 0")
    case True
    with less.prems show ?thesis by (subst descendant_up) simp
  next
    case False
    with less.prems have "0 < (j - 1) div 2" "nat ((j - 1) div 2) < nat j" by linarith+
    with less.hyps have "descendant 0 ((j - 1) div 2)" by blast
    with less.prems show ?thesis by (subst descendant_up) simp
  qed
qed

lemma depth_left: "0 \<le> i \<Longrightarrow> depth (2 * i + 1) = Suc (depth i)"
proof -
  assume a: "0 \<le> i"
  have "nat (2 * i + 1 + 1) = 2 * nat (i + 1)" using a by linarith
  moreover have "floorlog 2 (2 * nat (i + 1)) = floorlog 2 (nat (i + 1)) + 1"
    using a by (subst compute_floorlog) simp
  moreover have "0 < floorlog 2 (nat (i + 1))"
    using a by (simp add: floorlog_eq_zero_iff Suc_le_eq flip: not_le)
  ultimately show ?thesis by (simp add: depth_def)
qed

lemma depth_right: "0 \<le> i \<Longrightarrow> depth (2 * i + 2) = Suc (depth i)"
proof -
  assume a: "0 \<le> i"
  have "nat (2 * i + 2 + 1) = 2 * nat (i + 1) + 1" using a by linarith
  moreover have "floorlog 2 (2 * nat (i + 1) + 1) = floorlog 2 (nat (i + 1)) + 1"
    using a by (subst compute_floorlog) simp
  moreover have "0 < floorlog 2 (nat (i + 1))"
    using a by (simp add: floorlog_eq_zero_iff Suc_le_eq flip: not_le)
  ultimately show ?thesis by (simp add: depth_def)
qed

lemma depth_child: "0 \<le> i \<Longrightarrow> c \<in> children i \<Longrightarrow> even (depth c) = (\<not> even (depth i))"
  by (auto simp: children_def depth_left depth_right)

lemma depth_grandchild: "0 \<le> i \<Longrightarrow> g \<in> grandchildren i \<Longrightarrow> even (depth g) = even (depth i)"
proof -
  assume a: "0 \<le> i" and g: "g \<in> grandchildren i"
  then obtain c where c: "c \<in> children i" "g \<in> children c"
    unfolding grandchildren_children by blast
  from c(1) a have "0 \<le> c" by (auto simp: children_def)
  with depth_child[OF this c(2)] depth_child[OF a c(1)] show ?thesis by simp
qed

section \<open>Level parity\<close>

lemma depth_floor_log: "0 \<le> i \<Longrightarrow> int (depth i) = \<lfloor>log 2 (real_of_int (i + 1))\<rfloor>"
proof -
  assume a: "0 \<le> i"
  then have pos: "0 < nat (i + 1)" by simp
  have r: "real (nat (i + 1)) = real_of_int (i + 1)" using a by simp
  have "0 \<le> log 2 (real_of_int (i + 1))" using a by simp
  then have "0 \<le> \<lfloor>log 2 (real_of_int (i + 1))\<rfloor>" by simp
  then show ?thesis using pos r by (simp add: depth_def floorlog_def)
qed

lemma bit_bounds:
  fixes n :: nat
  assumes "n < 2 ^ Suc k"
  shows "bit n k \<longleftrightarrow> 2 ^ k \<le> n"
proof -
  have "n div 2 ^ k < 2" using assms by (simp add: less_mult_imp_div_less)
  then have "n div 2 ^ k = 0 \<or> n div 2 ^ k = 1" by linarith
  moreover have "n div 2 ^ k = 0 \<longleftrightarrow> n < 2 ^ k" by (simp add: div_eq_0_iff)
  ultimately show ?thesis
    by (auto simp: bit_iff_odd)
qed

lemma lz_count_floorlog:
  "unat w < 2 ^ k \<Longrightarrow> lz_count w k = k - floorlog 2 (unat w)"
proof (induction k)
  case 0
  then show ?case by simp
next
  case (Suc k)
  have b: "bit w k \<longleftrightarrow> 2 ^ k \<le> unat w"
    using bit_bounds[OF Suc.prems] by (simp add: bit_unsigned_iff)
  show ?case
  proof (cases "bit w k")
    case True
    with b have "Suc k \<le> floorlog 2 (unat w)" by (intro floorlog_ge_SucI) auto
    with True show ?thesis by simp
  next
    case False
    with b have lt: "unat w < 2 ^ k" by simp
    then have "floorlog 2 (unat w) \<le> k" by (simp add: floorlog_le_iff)
    with False Suc.IH[OF lt] show ?thesis by simp
  qed
qed

lemma isMinLevel_depth:
  assumes "0 \<le> i" "i < 2 ^ 63"
  shows "isMinLevel i \<longleftrightarrow> even (depth i)"
proof -
  let ?w = "word_of_int (i + 1) :: 64 word"
  have "i + 1 < 2 ^ 64" using assms by simp
  then have tb: "take_bit 64 (i + 1) = i + 1"
    using assms by (intro take_bit_int_eq_self) auto
  have "unat ?w = of_nat (nat (take_bit LENGTH(64) (i + 1)))"
    by (rule unsigned_of_int)
  with tb have u: "unat ?w = nat (i + 1)"
    by simp
  have "unat ?w < 2 ^ LENGTH(64)" by (rule unsigned_less)
  then have "unat ?w < 2 ^ 64" by simp
  then have lz: "lz_count ?w 64 = 64 - floorlog 2 (nat (i + 1))"
    using lz_count_floorlog[of ?w 64] u by simp
  have "nat (i + 1) < 2 ^ 64" using \<open>i + 1 < 2 ^ 64\<close> assms by (simp add: nat_less_iff)
  then have le: "floorlog 2 (nat (i + 1)) \<le> 64"
    by (simp add: floorlog_le_iff)
  have ge: "1 \<le> floorlog 2 (nat (i + 1))"
    using assms floorlog_ge_SucI[of 2 0 "nat (i+1)"] by simp
  have "isMinLevel i \<longleftrightarrow> odd (lz_count ?w 64)"
    by (simp add: isMinLevel_def LeadingZeros_def and_one_eq mod2_eq_if)
  also have "\<dots> \<longleftrightarrow> even (depth i)"
    using le ge unfolding lz depth_def by (simp add: even_diff_iff)
  finally show ?thesis .
qed

text \<open>
  C5.  For every index \<open>i \<ge> 0\<close> that a Go \<open>int\<close> can hold (\<open>i < 2\<^sup>6\<^sup>3\<close>), \<open>isMinLevel i\<close>
  is true exactly when \<open>\<lfloor>log\<^sub>2 (i + 1)\<rfloor>\<close> is even; and \<open>isMinLevel 0\<close> is true, the root
  being on a min level.
\<close>

theorem isMinLevel_iff_even_floor_log:
  assumes "0 \<le> i" and "i < 2 ^ 63"
  shows "(isMinLevel i \<longleftrightarrow> even \<lfloor>log 2 (real_of_int (i + 1))\<rfloor>) \<and> isMinLevel 0"
proof -
  have "even (depth i) \<longleftrightarrow> even (int (depth i))" by simp
  also have "\<dots> \<longleftrightarrow> even \<lfloor>log 2 (real_of_int (i + 1))\<rfloor>"
    using assms(1) by (simp only: depth_floor_log)
  finally have "isMinLevel i \<longleftrightarrow> even \<lfloor>log 2 (real_of_int (i + 1))\<rfloor>"
    using isMinLevel_depth[OF assms] by simp
  moreover have "isMinLevel 0"
    using isMinLevel_depth[of 0] by (simp add: depth_def compute_floorlog)
  ultimately show ?thesis by simp
qed

theorem isMinLevel_iff_even_floor_log_witness:
  "(0::int) \<le> 5 \<and> (5::int) < 2 ^ 63
   \<and> (isMinLevel 5 \<longleftrightarrow> even \<lfloor>log 2 (real_of_int (5 + 1))\<rfloor>) \<and> isMinLevel 0"
  using isMinLevel_iff_even_floor_log [of 5] by simp

section \<open>Empty sequences\<close>

text \<open>
  C9.  On an empty sequence \<open>Pop\<close> and \<open>Max\<close> panic (the result \<open>None\<close>) and return no
  value: \<open>Pop\<close> at \<open>h.Swap(0, -1)\<close>, \<open>Max\<close> at \<open>h.Less(1, 2)\<close>.
\<close>

theorem Pop_Max_empty_panic:
  assumes "items h = []"
  shows "Pop kf h = None \<and> Max_index kf h = None"
  using assms
  by (simp add: Pop_def Max_index_def h_Swap_def h_Less_def in_range_def h_Len_def)

theorem Pop_Max_empty_panic_witness:
  "items \<lparr>items = ([]::int list), nswaps = 0\<rparr> = []
   \<and> Pop (\<lambda>x. x) \<lparr>items = ([]::int list), nswaps = 0\<rparr> = None
   \<and> Max_index (\<lambda>x. x) \<lparr>items = ([]::int list), nswaps = 0\<rparr> = None"
  using Pop_Max_empty_panic [of "\<lparr>items = ([]::int list), nswaps = 0\<rparr>" "\<lambda>x. x"] by simp

section \<open>One step of sifting down, on key functions\<close>

lemma heap_exceptD:
  "heap_except f n k on \<Longrightarrow> k \<le> i \<Longrightarrow> i \<noteq> on \<Longrightarrow> j < n \<Longrightarrow> descendant i j
     \<Longrightarrow> le_dir (even (depth i)) (f i) (f j)"
  unfolding heap_except_def by blast

lemma heap_fromD:
  "heap_from f n k \<Longrightarrow> k \<le> i \<Longrightarrow> j < n \<Longrightarrow> descendant i j
     \<Longrightarrow> le_dir (even (depth i)) (f i) (f j)"
  unfolding heap_from_def by blast

lemma child_gt: "0 \<le> on \<Longrightarrow> c \<in> children on \<Longrightarrow> on < c"
  by (auto simp: children_def)

lemma grandchild_gt: "0 \<le> on \<Longrightarrow> g \<in> grandchildren on \<Longrightarrow> on < g"
  by (auto simp: grandchildren_def)

lemma descendant_child: "0 \<le> on \<Longrightarrow> c \<in> children on \<Longrightarrow> descendant on c"
  by (simp add: descendant_down)

lemma descendant_grandchild: "0 \<le> on \<Longrightarrow> g \<in> grandchildren on \<Longrightarrow> descendant on g"
  by (simp add: descendant_down2)

lemma grandchild_parent:
  "g \<in> grandchildren on \<Longrightarrow> (g - 1) div 2 \<in> children on \<and> g \<in> children ((g - 1) div 2)"
proof -
  assume "g \<in> grandchildren on"
  then consider "g = 4 * on + 3" | "g = 4 * on + 4" | "g = 4 * on + 5" | "g = 4 * on + 6"
    by (auto simp: grandchildren_def)
  then show ?thesis
  proof cases
    case 1
    then have "(g - 1) div 2 = 2 * on + 1" by linarith
    with 1 show ?thesis by (simp add: children_def)
  next
    case 2
    then have "(g - 1) div 2 = 2 * on + 1" by linarith
    with 2 show ?thesis by (simp add: children_def)
  next
    case 3
    then have "(g - 1) div 2 = 2 * on + 2" by linarith
    with 3 show ?thesis by (simp add: children_def)
  next
    case 4
    then have "(g - 1) div 2 = 2 * on + 2" by linarith
    with 4 show ?thesis by (simp add: children_def)
  qed
qed

text \<open>A value that is extreme among the children and grandchildren below \<open>n\<close> is
  extreme among all the descendants below \<open>n\<close>.\<close>

lemma extreme_descendants:
  assumes H: "heap_except f n k on" and k: "k \<le> on" and on: "0 \<le> on"
    and m: "m = even (depth on)"
    and ext: "\<forall>c \<in> children on \<union> grandchildren on. c < n \<longrightarrow> le_dir m v (f c)"
    and d: "descendant on j" and j: "j < n"
  shows "le_dir m v (f j)"
proof -
  from d descendant_down2[OF on, of j]
  consider "j \<in> children on \<union> grandchildren on"
    | g where "g \<in> grandchildren on" "descendant g j"
    by blast
  then show ?thesis
  proof cases
    case 1
    with ext j show ?thesis by blast
  next
    case 2
    from 2(2) have "g < j" using descendant_less by blast
    with j have gn: "g < n" by simp
    with ext 2(1) have a: "le_dir m v (f g)" by blast
    from grandchild_gt[OF on 2(1)] k have "k \<le> g" "g \<noteq> on" by simp_all
    from heap_exceptD[OF H this j 2(2)] depth_grandchild[OF on 2(1)] m
    have "le_dir m (f g) (f j)" by simp
    with a show ?thesis by (rule le_dir_trans)
  qed
qed

lemma heap_stop:
  assumes H: "heap_except f n k on" and k: "k \<le> on" and on: "0 \<le> on"
    and m: "m = even (depth on)"
    and ext: "\<forall>c \<in> children on \<union> grandchildren on. c < n \<longrightarrow> le_dir m (f on) (f c)"
  shows "heap_from f n k"
  unfolding heap_from_def
proof (intro allI impI, elim conjE)
  fix i j assume ij: "k \<le> i" "j < n" "descendant i j"
  show "le_dir (even (depth i)) (f i) (f j)"
  proof (cases "i = on")
    case True
    with extreme_descendants[OF H k on m ext _ ij(2)] ij(3) m show ?thesis by simp
  next
    case False
    from heap_exceptD[OF H ij(1) False ij(2,3)] show ?thesis .
  qed
qed

lemma heap_child_swap:
  assumes H: "heap_except f n k on" and k: "k \<le> on" and on: "0 \<le> on"
    and m: "m = even (depth on)"
    and c: "c \<in> children on" "c < n"
    and ext: "\<forall>j. descendant on j \<and> j < n \<longrightarrow> le_dir m (f c) (f j)"
    and lt: "le_dir m (f c) (f on)"
    and f': "f' on = f c" "f' c = f on" "\<forall>j. 0 \<le> j \<and> j \<noteq> on \<and> j \<noteq> c \<longrightarrow> f' j = f j"
  shows "heap_from f' n k"
  unfolding heap_from_def
proof (intro allI impI, elim conjE)
  fix i j assume ij: "k \<le> i" "j < n" "descendant i j"
  from descendant_less[OF ij(3)] have i0: "0 \<le> i" and lij: "i < j" by auto
  from child_gt[OF on c(1)] have onc: "on < c" .
  have dc: "even (depth c) = (\<not> m)" using depth_child[OF on c(1)] m by simp
  consider "i = on" | "i = c" | "i \<noteq> on" "i \<noteq> c" by blast
  then show "le_dir (even (depth i)) (f' i) (f' j)"
  proof cases
    case 1
    show ?thesis
    proof (cases "j = c")
      case True
      with 1 f' lt m show ?thesis by simp
    next
      case False
      with 1 lij on f' have "f' j = f j" by simp
      with 1 f'(1) ext ij m show ?thesis by simp
    qed
  next
    case 2
    with lij onc on f' have fj: "f' j = f j" by simp
    from 2 k onc have "k \<le> c" "c \<noteq> on" by simp_all
    from heap_exceptD[OF H this ij(2)] ij(3) 2 dc have "le_dir (\<not> m) (f c) (f j)" by simp
    moreover from lt have "le_dir (\<not> m) (f on) (f c)" by (simp add: le_dir_flip)
    ultimately have "le_dir (\<not> m) (f on) (f j)" using le_dir_trans by blast
    with 2 fj f'(2) dc show ?thesis by simp
  next
    case 3
    with i0 f' have fi: "f' i = f i" by simp
    consider "j = on" | "j = c" | "j \<noteq> on" "j \<noteq> c" by blast
    then show ?thesis
    proof cases
      case 1
      with ij(3) have "descendant i c" using descendant_of_child[OF on c(1), of i] i0 by simp
      from heap_exceptD[OF H ij(1) 3(1) c(2) this] fi 1 f'(1) show ?thesis by simp
    next
      case 2
      with ij(3) 3 have d: "descendant i on" using descendant_of_child[OF on c(1), of i] by simp
      from onc c(2) have "on < n" by simp
      from heap_exceptD[OF H ij(1) 3(1) this d] fi 2 f'(2) show ?thesis by simp
    next
      case 3
      with lij i0 f' have "f' j = f j" by simp
      with heap_exceptD[OF H ij(1) \<open>i \<noteq> on\<close> ij(2,3)] fi show ?thesis by simp
    qed
  qed
qed

lemma heap_grandchild_swap:
  assumes H: "heap_except f n k on" and k: "k \<le> on" and on: "0 \<le> on"
    and m: "m = even (depth on)"
    and g: "g \<in> grandchildren on" "g < n"
    and p: "p = (g - 1) div 2"
    and ext: "\<forall>j. descendant on j \<and> j < n \<longrightarrow> le_dir m (f g) (f j)"
    and lt: "le_dir m (f g) (f on)"
    and np: "le_dir m (f on) (f p)"
    and f': "f' on = f g" "f' g = f on" "\<forall>j. 0 \<le> j \<and> j \<noteq> on \<and> j \<noteq> g \<longrightarrow> f' j = f j"
  shows "heap_except f' n k g"
  unfolding heap_except_def
proof (intro allI impI, elim conjE)
  fix i j assume ij: "k \<le> i" "i \<noteq> g" "j < n" "descendant i j"
  from descendant_less[OF ij(4)] have i0: "0 \<le> i" and lij: "i < j" by auto
  from grandchild_parent[OF g(1)] p have pc: "p \<in> children on" and gp: "g \<in> children p" by simp_all
  from child_gt[OF on pc] have onp: "on < p" .
  then have p0: "0 \<le> p" using on by simp
  from child_gt[OF p0 gp] have pg: "p < g" .
  have dp: "even (depth p) = (\<not> m)" using depth_child[OF on pc] m by simp
  consider "i = on" | "i = p" | "i \<noteq> on" "i \<noteq> p" by blast
  then show "le_dir (even (depth i)) (f' i) (f' j)"
  proof cases
    case 1
    show ?thesis
    proof (cases "j = g")
      case True
      with 1 f' lt m show ?thesis by simp
    next
      case False
      with 1 lij on f' have "f' j = f j" by simp
      with 1 f'(1) ext ij m show ?thesis by simp
    qed
  next
    case 2
    with onp pg p0 f' have fi: "f' i = f i" by simp
    show ?thesis
    proof (cases "j = g")
      case True
      from np have "le_dir (\<not> m) (f p) (f on)" by (simp add: le_dir_flip)
      with True 2 fi f'(2) dp show ?thesis by simp
    next
      case False
      with 2 lij onp p0 on f' have "f' j = f j" by simp
      moreover from 2 k onp have "k \<le> p" "p \<noteq> on" by simp_all
      from heap_exceptD[OF H this ij(3)] ij(4) 2 have "le_dir (even (depth p)) (f p) (f j)" by simp
      ultimately show ?thesis using 2 fi by simp
    qed
  next
    case 3
    with ij(2) i0 f' have fi: "f' i = f i" by simp
    consider "j = on" | "j = g" | "j \<noteq> on" "j \<noteq> g" by blast
    then show ?thesis
    proof cases
      case 1
      with ij(4) have "descendant i g"
        using descendant_trans[OF _ descendant_grandchild[OF on g(1)]] by simp
      from heap_exceptD[OF H ij(1) 3(1) g(2) this] fi 1 f'(1) show ?thesis by simp
    next
      case 2
      with ij(4) 3 have "descendant i p" using descendant_of_child[OF p0 gp, of i] by simp
      with 3 have d: "descendant i on" using descendant_of_child[OF on pc, of i] by simp
      from onp pg g(2) have "on < n" by simp
      from heap_exceptD[OF H ij(1) 3(1) this d] fi 2 f'(2) show ?thesis by simp
    next
      case 3
      with lij i0 f' have "f' j = f j" by simp
      with heap_exceptD[OF H ij(1) \<open>i \<noteq> on\<close> ij(3,4)] fi show ?thesis by simp
    qed
  qed
qed

lemma heap_grandchild_swap2:
  assumes H: "heap_except f n k on" and k: "k \<le> on" and on: "0 \<le> on"
    and m: "m = even (depth on)"
    and g: "g \<in> grandchildren on" "g < n"
    and p: "p = (g - 1) div 2"
    and ext: "\<forall>j. descendant on j \<and> j < n \<longrightarrow> le_dir m (f g) (f j)"
    and lt: "le_dir m (f g) (f on)"
    and pn: "le_dir m (f p) (f on)"
    and f': "f' on = f g" "f' p = f on" "f' g = f p"
      "\<forall>j. 0 \<le> j \<and> j \<noteq> on \<and> j \<noteq> p \<and> j \<noteq> g \<longrightarrow> f' j = f j"
  shows "heap_except f' n k g"
  unfolding heap_except_def
proof (intro allI impI, elim conjE)
  fix i j assume ij: "k \<le> i" "i \<noteq> g" "j < n" "descendant i j"
  from descendant_less[OF ij(4)] have i0: "0 \<le> i" and lij: "i < j" by auto
  from grandchild_parent[OF g(1)] p have pc: "p \<in> children on" and gp: "g \<in> children p" by simp_all
  from child_gt[OF on pc] have onp: "on < p" .
  then have p0: "0 \<le> p" using on by simp
  from child_gt[OF p0 gp] have pg: "p < g" .
  from pg g(2) have pn': "p < n" by simp
  have dp: "even (depth p) = (\<not> m)" using depth_child[OF on pc] m by simp
  consider "i = on" | "i = p" | "i \<noteq> on" "i \<noteq> p" by blast
  then show "le_dir (even (depth i)) (f' i) (f' j)"
  proof cases
    case 1
    consider "j = p" | "j = g" | "j \<noteq> p" "j \<noteq> g" by blast
    then show ?thesis
    proof cases
      case 1
      with \<open>i = on\<close> f' lt m show ?thesis by simp
    next
      case 2
      from ext descendant_child[OF on pc] pn' have "le_dir m (f g) (f p)" by blast
      with 2 \<open>i = on\<close> f' m show ?thesis by simp
    next
      case 3
      with \<open>i = on\<close> lij on f' have "f' j = f j" by simp
      with \<open>i = on\<close> f'(1) ext ij m show ?thesis by simp
    qed
  next
    case 2
    show ?thesis
    proof (cases "j = g")
      case True
      from pn have "le_dir (\<not> m) (f on) (f p)" by (simp add: le_dir_flip)
      with True 2 f' dp show ?thesis by simp
    next
      case False
      with 2 lij onp p0 on f' have fj: "f' j = f j" by simp
      from 2 k onp have "k \<le> p" "p \<noteq> on" by simp_all
      from heap_exceptD[OF H this ij(3)] ij(4) 2 dp have "le_dir (\<not> m) (f p) (f j)" by simp
      moreover from pn have "le_dir (\<not> m) (f on) (f p)" by (simp add: le_dir_flip)
      ultimately have "le_dir (\<not> m) (f on) (f j)" using le_dir_trans by blast
      with 2 fj f'(2) dp show ?thesis by simp
    qed
  next
    case 3
    with ij(2) i0 f' have fi: "f' i = f i" by simp
    consider "j = on" | "j = p" | "j = g" | "j \<noteq> on" "j \<noteq> p" "j \<noteq> g" by blast
    then show ?thesis
    proof cases
      case 1
      with ij(4) have "descendant i g"
        using descendant_trans[OF _ descendant_grandchild[OF on g(1)]] by simp
      from heap_exceptD[OF H ij(1) 3(1) g(2) this] fi 1 f'(1) show ?thesis by simp
    next
      case 2
      with ij(4) 3 have d: "descendant i on" using descendant_of_child[OF on pc, of i] by simp
      from onp pn' have "on < n" by simp
      from heap_exceptD[OF H ij(1) 3(1) this d] fi 2 f'(2) show ?thesis by simp
    next
      case 3
      with ij(4) \<open>i \<noteq> p\<close> have "descendant i p" using descendant_of_child[OF p0 gp, of i] by simp
      from heap_exceptD[OF H ij(1) \<open>i \<noteq> on\<close> pn' this] fi 3 f'(3) show ?thesis by simp
    next
      case 4
      with lij i0 f' have "f' j = f j" by simp
      with heap_exceptD[OF H ij(1) \<open>i \<noteq> on\<close> ij(3,4)] fi show ?thesis by simp
    qed
  qed
qed

section \<open>The sequence operations and the selection of one iteration\<close>

lemma h_Less_in_range:
  "in_range h i \<Longrightarrow> in_range h j \<Longrightarrow>
     h_Less kf h i j = Some (key kf (items h) i < key kf (items h) j)"
  by (simp add: h_Less_def key_def)

lemma h_Swap_in_range:
  assumes "in_range h i" "in_range h j"
  obtains h1 where "h_Swap h i j = Some h1"
    and "h_Len h1 = h_Len h"
    and "mset (items h1) = mset (items h)"
    and "nswaps h1 = Suc (nswaps h)"
    and "\<forall>x. 0 \<le> x \<longrightarrow> items h1 ! nat x =
           (if x = j then items h ! nat i else if x = i then items h ! nat j else items h ! nat x)"
proof -
  let ?h1 = "h\<lparr>items := (items h)[nat i := items h ! nat j, nat j := items h ! nat i],
               nswaps := Suc (nswaps h)\<rparr>"
  from assms have r: "nat i < length (items h)" "nat j < length (items h)" "0 \<le> i" "0 \<le> j"
    by (auto simp: in_range_def h_Len_def)
  have "h_Swap h i j = Some ?h1" using assms by (simp add: h_Swap_def)
  moreover have "h_Len ?h1 = h_Len h" by (simp add: h_Len_def)
  moreover have "mset (items ?h1) = mset (items h)" using r by (simp add: mset_swap)
  moreover have "nswaps ?h1 = Suc (nswaps h)" by simp
  moreover have "\<forall>x. 0 \<le> x \<longrightarrow> items ?h1 ! nat x =
           (if x = j then items h ! nat i else if x = i then items h ! nat j else items h ! nat x)"
    using r by (auto simp: nth_list_update nat_eq_iff)
  ultimately show ?thesis using that by blast
qed

lemma progenies_small:
  assumes "0 \<le> on" "on < 2 ^ 60"
  shows "progenies on =
    [\<lparr>index = 2 * on + 1, relation = child\<rparr>, \<lparr>index = 2 * on + 2, relation = child\<rparr>,
     \<lparr>index = 4 * on + 3, relation = grandchild\<rparr>, \<lparr>index = 4 * on + 4, relation = grandchild\<rparr>,
     \<lparr>index = 4 * on + 5, relation = grandchild\<rparr>, \<lparr>index = 4 * on + 6, relation = grandchild\<rparr>]"
proof -
  have w: "wrap64 x = x" if "0 \<le> x" "x \<le> 4 * on + 6" for x
  proof -
    from assms that have "x < 2 ^ 63" by simp
    with that show ?thesis by (intro wrap64_id) simp_all
  qed
  have w': "wrap64 x = y" if "x = y" "0 \<le> y" "y \<le> 4 * on + 6" for x y
    using that w by simp
  have l: "wrap64 (2 * on + 1) = 2 * on + 1" by (rule w') (use assms in simp_all)
  have r: "wrap64 (2 * on + 1 + 1) = 2 * on + 2" by (rule w') (use assms in simp_all)
  have ll: "wrap64 (2 * (2 * on + 1) + 1) = 4 * on + 3" by (rule w') (use assms in simp_all)
  have lr: "wrap64 (4 * on + 3 + 1) = 4 * on + 4" by (rule w') (use assms in simp_all)
  have rl: "wrap64 (2 * (2 * on + 2) + 1) = 4 * on + 5" by (rule w') (use assms in simp_all)
  have rr: "wrap64 (4 * on + 5 + 1) = 4 * on + 6" by (rule w') (use assms in simp_all)
  show ?thesis
    by (simp only: progenies_def Let_def l r ll lr rl rr)
qed

lemma progenies_first:
  assumes "0 \<le> on" "on < 2 ^ 63"
  obtains ps where "progenies on = \<lparr>index = wrap64 (2 * on + 1), relation = child\<rparr> # ps"
    and "wrap64 (2 * on + 1) = 2 * on + 1 \<or> wrap64 (2 * on + 1) < 0"
proof -
  from assms have "0 \<le> 2 * on + 1" "2 * on + 1 < 2 ^ 64" by simp_all
  from wrap64_cases[OF this] show ?thesis
    using that by (simp add: progenies_def Let_def)
qed

text \<open>The inner loop over candidates with increasing, non-negative indices.\<close>

lemma select_sorted:
  assumes "n \<le> h_Len h" and "in_range h (index s0)"
    and "sorted (map index ps)" and "\<forall>p \<in> set ps. 0 \<le> index p"
  shows "\<exists>s. select kf h n m ps s0 = Some s
      \<and> (s = s0 \<or> s \<in> set ps \<and> index s < n)
      \<and> le_dir m (key kf (items h) (index s)) (key kf (items h) (index s0))
      \<and> (\<forall>p \<in> set ps. index p < n \<longrightarrow> le_dir m (key kf (items h) (index s)) (key kf (items h) (index p)))"
  using assms(2-)
proof (induction ps arbitrary: s0)
  case Nil
  then show ?case by simp
next
  case (Cons p ps)
  let ?k = "key kf (items h)"
  show ?case
  proof (cases "index p < n")
    case False
    with Cons.prems have "\<forall>q \<in> set (p # ps). \<not> index q < n" by auto
    with False show ?thesis by simp
  next
    case True
    with Cons.prems assms(1) have rp: "in_range h (index p)" by (simp add: in_range_def)
    define b where "b = (?k (index p) < ?k (index s0))"
    define s1 where "s1 = (if m = b then p else s0)"
    have less: "h_Less kf h (index p) (index s0) = Some b"
      using h_Less_in_range[OF rp Cons.prems(1)] by (simp add: b_def)
    have r1: "in_range h (index s1)" using rp Cons.prems(1) by (simp add: s1_def)
    have s1_s0: "le_dir m (?k (index s1)) (?k (index s0))"
      unfolding s1_def b_def by (auto intro: le_dir_sel)
    have s1_p: "le_dir m (?k (index s1)) (?k (index p))"
      unfolding s1_def b_def by (auto intro: le_dir_not_sel)
    from Cons.prems have "sorted (map index ps)" "\<forall>p \<in> set ps. 0 \<le> index p" by simp_all
    from Cons.IH[OF r1 this] obtain s where
      s: "select kf h n m ps s1 = Some s" "s = s1 \<or> s \<in> set ps \<and> index s < n"
        "le_dir m (?k (index s)) (?k (index s1))"
        "\<forall>p \<in> set ps. index p < n \<longrightarrow> le_dir m (?k (index s)) (?k (index p))"
      by blast
    have "select kf h n m (p # ps) s0 = Some s"
      using True Cons.prems(3) less s(1) by (simp add: s1_def)
    moreover have "s = s0 \<or> s \<in> set (p # ps) \<and> index s < n"
      using s(2) True by (auto simp: s1_def split: if_splits)
    moreover have "le_dir m (?k (index s)) (?k (index s0))"
      using s(3) s1_s0 by (rule le_dir_trans)
    moreover have "le_dir m (?k (index s)) (?k (index p))"
      using s(3) s1_p by (rule le_dir_trans)
    ultimately show ?thesis using s(4) by auto
  qed
qed

text \<open>The selection of one iteration of \<open>down\<close>.\<close>

lemma select_progenies:
  assumes n: "n \<le> h_Len h" "h_Len h < 2 ^ 60" and on: "0 \<le> on" "on < 2 ^ 63"
  shows "\<exists>s. select kf h n m (progenies on) \<lparr>index = on, relation = self\<rparr> = Some s
      \<and> (s = \<lparr>index = on, relation = self\<rparr>
          \<or> index s \<in> children on \<and> relation s = child \<and> index s < n
          \<or> index s \<in> grandchildren on \<and> relation s = grandchild \<and> index s < n)
      \<and> le_dir m (key kf (items h) (index s)) (key kf (items h) on)
      \<and> (\<forall>c \<in> children on \<union> grandchildren on. c < n \<longrightarrow>
            le_dir m (key kf (items h) (index s)) (key kf (items h) c))"
proof (cases "2 * on + 1 < n")
  case False
  from progenies_first[OF on] obtain ps where
    ps: "progenies on = \<lparr>index = wrap64 (2 * on + 1), relation = child\<rparr> # ps"
      "wrap64 (2 * on + 1) = 2 * on + 1 \<or> wrap64 (2 * on + 1) < 0"
    by blast
  with False have "select kf h n m (progenies on) \<lparr>index = on, relation = self\<rparr>
      = Some \<lparr>index = on, relation = self\<rparr>"
    by auto
  moreover have "\<forall>c \<in> children on \<union> grandchildren on. \<not> c < n"
    using False on by (auto simp: children_def grandchildren_def)
  ultimately show ?thesis by simp
next
  case True
  with n on have small: "on < 2 ^ 60" and r: "in_range h on" by (simp_all add: in_range_def)
  let ?s0 = "\<lparr>index = on, relation = self\<rparr>"
  note P = progenies_small[OF on(1) small]
  have "sorted (map index (progenies on))" "\<forall>p \<in> set (progenies on). 0 \<le> index p"
    using on by (simp_all add: P)
  from select_sorted[OF n(1) _ this, of ?s0 kf m] r obtain s where
    s: "select kf h n m (progenies on) ?s0 = Some s"
      "s = ?s0 \<or> s \<in> set (progenies on) \<and> index s < n"
      "le_dir m (key kf (items h) (index s)) (key kf (items h) on)"
      "\<forall>p \<in> set (progenies on). index p < n \<longrightarrow>
         le_dir m (key kf (items h) (index s)) (key kf (items h) (index p))"
    by auto
  have A: "s = ?s0
          \<or> index s \<in> children on \<and> relation s = child \<and> index s < n
          \<or> index s \<in> grandchildren on \<and> relation s = grandchild \<and> index s < n"
    using s(2) by (auto simp: P children_def grandchildren_def)
  have I: "index ` set (progenies on) = children on \<union> grandchildren on"
    by (simp add: P children_def grandchildren_def) blast
  have B: "\<forall>c \<in> children on \<union> grandchildren on. c < n \<longrightarrow>
            le_dir m (key kf (items h) (index s)) (key kf (items h) c)"
  proof (intro ballI impI)
    fix c assume c: "c \<in> children on \<union> grandchildren on" "c < n"
    from c(1) have "c \<in> index ` set (progenies on)" unfolding I .
    then obtain p where p: "p \<in> set (progenies on)" "c = index p" by (rule imageE)
    from s(4)[rule_format, OF p(1)] c(2)
    show "le_dir m (key kf (items h) (index s)) (key kf (items h) c)" unfolding p(2) by blast
  qed
  show ?thesis
    by (rule exI[of _ s]) (intro conjI s(1) A s(3) B)
qed

section \<open>Sifting down restores the property below its start\<close>

declare down_loop.simps [simp del] up_loop.simps [simp del] Init_loop.simps [simp del]

lemma key_swapped:
  assumes "\<forall>x. 0 \<le> x \<longrightarrow> items h1 ! nat x =
           (if x = j then items h ! nat i else if x = i then items h ! nat j else items h ! nat x)"
    and "0 \<le> x"
  shows "key kf (items h1) x =
           (if x = j then key kf (items h) i else if x = i then key kf (items h) j
            else key kf (items h) x)"
  using assms by (simp add: key_def)

lemma parent_grandchild:
  "0 \<le> on \<Longrightarrow> g \<in> grandchildren on \<Longrightarrow> parent g = (g - 1) div 2"
  by (rule parent_pos) (auto simp: grandchildren_def)

lemma down_loop_correct:
  assumes "n \<le> h_Len h" "h_Len h < 2 ^ 60" "0 \<le> on" "on < 2 ^ 63"
  shows "\<exists>h' on'. down_loop kf h n m on = Some (h', on') \<and> sifted_down kf h n m on h' on'"
  using assms
proof (induction "nat (n - on)" arbitrary: h on rule: less_induct)
  case less
  note n = less.prems(1,2) and on = less.prems(3,4)
  let ?s0 = "\<lparr>index = on, relation = self\<rparr>"
  let ?f = "key kf (items h)"
  from select_progenies[OF less.prems, of kf m] obtain s where
    sel: "select kf h n m (progenies on) ?s0 = Some s"
    and cases: "s = ?s0
          \<or> index s \<in> children on \<and> relation s = child \<and> index s < n
          \<or> index s \<in> grandchildren on \<and> relation s = grandchild \<and> index s < n"
    and s_on: "le_dir m (?f (index s)) (?f on)"
    and s_ext: "\<forall>c \<in> children on \<union> grandchildren on. c < n \<longrightarrow> le_dir m (?f (index s)) (?f c)"
    by blast
  have ext: "\<forall>j. descendant on j \<and> j < n \<longrightarrow> le_dir m (?f (index s)) (?f j)"
    if "k \<le> on" "m = even (depth on)" "heap_except ?f n k on" for k
    using extreme_descendants[OF that(3,1) on(1) that(2) s_ext] by blast
  from cases consider (self) "s = ?s0"
    | (child) "index s \<in> children on" "relation s = child" "index s < n"
    | (gc) "index s \<in> grandchildren on" "relation s = grandchild" "index s < n"
    by blast
  then show ?case
  proof cases
    case self
    have res: "down_loop kf h n m on = Some (h, on)"
      by (subst down_loop.simps) (simp add: sel self)
    have "heap_from ?f n k" if "k \<le> on" "m = even (depth on)" "heap_except ?f n k on" for k
      using heap_stop[OF that(3,1) on(1) that(2)] s_ext self by simp
    then have "sifted_down kf h n m on h on"
      unfolding sifted_down_def by blast
    with res show ?thesis by blast
  next
    case child
    let ?c = "index s"
    from child_gt[OF on(1) child(1)] have onc: "on < ?c" .
    with child(3) n on have r: "in_range h on" "in_range h ?c"
      by (simp_all add: in_range_def)
    from h_Swap_in_range[OF r] obtain h1 where
      h1: "h_Swap h on ?c = Some h1" "h_Len h1 = h_Len h" "mset (items h1) = mset (items h)"
        "\<forall>x. 0 \<le> x \<longrightarrow> items h1 ! nat x =
           (if x = ?c then items h ! nat on else if x = on then items h ! nat ?c
            else items h ! nat x)"
      by blast
    have res: "down_loop kf h n m on = Some (h1, ?c)"
      by (subst down_loop.simps) (simp add: sel child(2) h1(1))
    let ?f' = "key kf (items h1)"
    have f': "?f' on = ?f ?c" "?f' ?c = ?f on" "\<forall>j. 0 \<le> j \<and> j \<noteq> on \<and> j \<noteq> ?c \<longrightarrow> ?f' j = ?f j"
      using key_swapped[OF h1(4), of _ kf] on(1) onc by simp_all
    have heap: "heap_from ?f' n k" if "k \<le> on" "m = even (depth on)" "heap_except ?f n k on" for k
      by (rule heap_child_swap[OF that(3,1) on(1) that(2) child(1,3) ext[OF that] s_on f'])
    have frame: "\<forall>j. 0 \<le> j \<and> (j < on \<or> n \<le> j) \<longrightarrow> items h1 ! nat j = items h ! nat j"
      using h1(4) onc child(3) by simp
    have "sifted_down kf h n m on h1 ?c"
      unfolding sifted_down_def using h1(2,3) onc frame heap by auto
    with res show ?thesis by blast
  next
    case gc
    let ?g = "index s"
    let ?p = "(?g - 1) div 2"
    from grandchild_parent[OF gc(1)] have pc: "?p \<in> children on" and gp: "?g \<in> children ?p"
      by simp_all
    from child_gt[OF on(1) pc] have onp: "on < ?p" .
    then have p0: "0 \<le> ?p" using on by simp
    from child_gt[OF p0 gp] have pg: "?p < ?g" .
    have par: "parent ?g = ?p" by (rule parent_grandchild[OF on(1) gc(1)])
    from onp pg gc(3) n on have r: "in_range h on" "in_range h ?g"
      by (simp_all add: in_range_def)
    from h_Swap_in_range[OF r] obtain h1 where
      h1: "h_Swap h on ?g = Some h1" "h_Len h1 = h_Len h" "mset (items h1) = mset (items h)"
        "\<forall>x. 0 \<le> x \<longrightarrow> items h1 ! nat x =
           (if x = ?g then items h ! nat on else if x = on then items h ! nat ?g
            else items h ! nat x)"
      by blast
    let ?f1 = "key kf (items h1)"
    have f1: "?f1 on = ?f ?g" "?f1 ?g = ?f on" "\<forall>j. 0 \<le> j \<and> j \<noteq> on \<and> j \<noteq> ?g \<longrightarrow> ?f1 j = ?f j"
      using key_swapped[OF h1(4), of _ kf] on(1) onp pg by simp_all
    from onp pg gc(3) n on h1(2) have r1: "in_range h1 ?p" "in_range h1 ?g"
      by (simp_all add: in_range_def)
    define b where "b = (?f ?p < ?f on)"
    have less1: "h_Less kf h1 ?p ?g = Some b"
      using h_Less_in_range[OF r1, of kf] f1 p0 onp pg by (simp add: b_def)
    have "\<exists>h2. (if m = b then h_Swap h1 ?g ?p else Some h1) = Some h2
        \<and> h_Len h2 = h_Len h \<and> mset (items h2) = mset (items h)
        \<and> (\<forall>j. 0 \<le> j \<and> (j < on \<or> n \<le> j) \<longrightarrow> items h2 ! nat j = items h ! nat j)
        \<and> (\<forall>k. k \<le> on \<and> m = even (depth on) \<and> heap_except ?f n k on
              \<longrightarrow> heap_except (key kf (items h2)) n k ?g)"
    proof (cases "m = b")
      case False
      then have np: "le_dir m (?f on) (?f ?p)" unfolding b_def by (rule le_dir_not_sel)
      have heap: "heap_except ?f1 n k ?g"
        if "k \<le> on" "m = even (depth on)" "heap_except ?f n k on" for k
        by (rule heap_grandchild_swap[OF that(3,1) on(1) that(2) gc(1,3) refl ext[OF that] s_on np f1])
      have frame: "\<forall>j. 0 \<le> j \<and> (j < on \<or> n \<le> j) \<longrightarrow> items h1 ! nat j = items h ! nat j"
        using h1(4) onp pg gc(3) by simp
      from False h1(2,3) frame heap show ?thesis by auto
    next
      case True
      then have pn: "le_dir m (?f ?p) (?f on)" unfolding b_def by (rule le_dir_sel)
      from h_Swap_in_range[OF r1(2,1)] obtain h2 where
        h2: "h_Swap h1 ?g ?p = Some h2" "h_Len h2 = h_Len h1" "mset (items h2) = mset (items h1)"
          "\<forall>x. 0 \<le> x \<longrightarrow> items h2 ! nat x =
             (if x = ?p then items h1 ! nat ?g else if x = ?g then items h1 ! nat ?p
              else items h1 ! nat x)"
        by blast
      let ?f2 = "key kf (items h2)"
      have f2: "?f2 on = ?f ?g" "?f2 ?p = ?f on" "?f2 ?g = ?f ?p"
        "\<forall>j. 0 \<le> j \<and> j \<noteq> on \<and> j \<noteq> ?p \<and> j \<noteq> ?g \<longrightarrow> ?f2 j = ?f j"
        using key_swapped[OF h2(4), of _ kf] f1 on(1) p0 onp pg by simp_all
      have heap: "heap_except ?f2 n k ?g"
        if "k \<le> on" "m = even (depth on)" "heap_except ?f n k on" for k
        by (rule heap_grandchild_swap2[OF that(3,1) on(1) that(2) gc(1,3) refl ext[OF that] s_on pn f2])
      have frame: "\<forall>j. 0 \<le> j \<and> (j < on \<or> n \<le> j) \<longrightarrow> items h2 ! nat j = items h ! nat j"
        using h1(4) h2(4) onp pg gc(3) by simp
      from True h2(1,2,3) h1(2,3) frame heap show ?thesis by auto
    qed
    then obtain h2 where
      h2: "(if m = b then h_Swap h1 ?g ?p else Some h1) = Some h2"
        "h_Len h2 = h_Len h" "mset (items h2) = mset (items h)"
        "\<forall>j. 0 \<le> j \<and> (j < on \<or> n \<le> j) \<longrightarrow> items h2 ! nat j = items h ! nat j"
        "\<forall>k. k \<le> on \<and> m = even (depth on) \<and> heap_except ?f n k on
              \<longrightarrow> heap_except (key kf (items h2)) n k ?g"
      by blast
    have res: "down_loop kf h n m on = down_loop kf h2 n m ?g"
    proof (cases "m = b")
      case True
      with h2(1) have sw: "h_Swap h1 ?g ?p = Some h2" by simp
      from True have bm: "b = m" by simp
      show ?thesis
        unfolding down_loop.simps[of kf h n m on]
        by (simp add: sel gc(2) h1(1) par less1 bm sw)
    next
      case False
      with h2(1) have eq: "h2 = h1" by simp
      from False have nb: "(m = b) = False" by simp
      show ?thesis
        unfolding down_loop.simps[of kf h n m on]
        by (simp add: sel gc(2) h1(1) par less1 nb eq)
    qed
    have "nat (n - ?g) < nat (n - on)" using onp pg gc(3) by simp
    moreover have "n \<le> h_Len h2" "h_Len h2 < 2 ^ 60" "0 \<le> ?g" "?g < 2 ^ 63"
      using n h2(2) p0 pg gc(3) by simp_all
    ultimately obtain h' on' where
      rec: "down_loop kf h2 n m ?g = Some (h', on')" "sifted_down kf h2 n m ?g h' on'"
      using less.hyps by blast
    have dg: "even (depth ?g) = even (depth on)" by (rule depth_grandchild[OF on(1) gc(1)])
    from rec(2) have R: "h_Len h' = h_Len h2" "mset (items h') = mset (items h2)" "?g \<le> on'"
      "\<forall>j. 0 \<le> j \<and> (j < ?g \<or> n \<le> j) \<longrightarrow> items h' ! nat j = items h2 ! nat j"
      "\<forall>k. k \<le> ?g \<and> m = even (depth ?g) \<and> heap_except (key kf (items h2)) n k ?g
            \<longrightarrow> heap_from (key kf (items h')) n k"
      unfolding sifted_down_def by blast+
    have "h_Len h' = h_Len h" using R(1) h2(2) by simp
    moreover have "mset (items h') = mset (items h)" using R(2) h2(3) by simp
    moreover have "on \<le> on'" "on' \<noteq> on" using R(3) onp pg by simp_all
    moreover have "\<forall>j. 0 \<le> j \<and> (j < on \<or> n \<le> j) \<longrightarrow> items h' ! nat j = items h ! nat j"
    proof (intro allI impI)
      fix j assume j: "0 \<le> j \<and> (j < on \<or> n \<le> j)"
      with onp pg have "0 \<le> j \<and> (j < ?g \<or> n \<le> j)" by auto
      with R(4) have "items h' ! nat j = items h2 ! nat j" by blast
      with h2(4) j show "items h' ! nat j = items h ! nat j" by simp
    qed
    moreover have "heap_from (key kf (items h')) n k"
      if "k \<le> on" "m = even (depth on)" "heap_except ?f n k on" for k
    proof -
      from h2(5) that have "heap_except (key kf (items h2)) n k ?g" by blast
      moreover from that(1) onp pg have "k \<le> ?g" by simp
      ultimately show ?thesis using R(5) dg that(2) by blast
    qed
    ultimately have "sifted_down kf h n m on h' on'"
      unfolding sifted_down_def by blast
    with res rec(1) show ?thesis by simp
  qed
qed

section \<open>Init and Pop\<close>

lemma depth_0 [simp]: "depth 0 = 0"
  by (simp add: depth_def compute_floorlog)

lemma ordered_le_dir: "ordered kf xs i j = le_dir (even (depth i)) (key kf xs i) (key kf xs j)"
  by (simp add: ordered_def le_dir_def key_def)

lemma mmheap_heap_from: "mmheap kf xs \<longleftrightarrow> heap_from (key kf xs) (int (length xs)) 0"
proof
  assume a: "mmheap kf xs"
  show "heap_from (key kf xs) (int (length xs)) 0"
    unfolding heap_from_def
  proof (intro allI impI, elim conjE)
    fix i j assume ij: "0 \<le> i" "j < int (length xs)" "descendant i j"
    from descendant_less[OF ij(3)] ij(2) have "i \<in> set [0..int (length xs) - 1]"
      "j \<in> set [0..int (length xs) - 1]" by auto
    with a ij(3) have "ordered kf xs i j" unfolding mmheap_def by blast
    then show "le_dir (even (depth i)) (key kf xs i) (key kf xs j)" by (simp add: ordered_le_dir)
  qed
next
  assume a: "heap_from (key kf xs) (int (length xs)) 0"
  show "mmheap kf xs"
    unfolding mmheap_def
  proof (intro ballI impI)
    fix i j assume "i \<in> set [0..int (length xs) - 1]" "j \<in> set [0..int (length xs) - 1]"
      "descendant i j"
    then have "0 \<le> i" "j < int (length xs)" "descendant i j" by auto
    from heap_fromD[OF a this] show "ordered kf xs i j" by (simp add: ordered_le_dir)
  qed
qed

lemma heap_from_cong:
  assumes "heap_from f n k" and "0 \<le> k" and "\<forall>j. 0 \<le> j \<and> j < n \<longrightarrow> g j = f j"
  shows "heap_from g n k"
  unfolding heap_from_def
proof (intro allI impI, elim conjE)
  fix i j assume ij: "k \<le> i" "j < n" "descendant i j"
  from descendant_less[OF ij(3)] ij(1,2) assms(2) have "0 \<le> i" "i < n" "0 \<le> j" by auto
  with assms(3) ij(2) have "g i = f i" "g j = f j" by simp_all
  with heap_fromD[OF assms(1) ij] show "le_dir (even (depth i)) (g i) (g j)" by simp
qed

lemma heap_from_mono: "heap_from f n k \<Longrightarrow> k \<le> k' \<Longrightarrow> n' \<le> n \<Longrightarrow> heap_from f n' k'"
  unfolding heap_from_def by (meson order_trans less_le_trans)

text \<open>\<open>down\<close> itself: from a non-negative start it returns, having moved iff it swapped.\<close>

lemma down_correct:
  assumes "n \<le> h_Len h" "h_Len h < 2 ^ 60" "0 \<le> i0" "i0 < 2 ^ 63"
  shows "\<exists>h' on'. down kf h i0 n = Some (h', i0 < on')
      \<and> sifted_down kf h n (even (depth i0)) i0 h' on'"
proof -
  from down_loop_correct[OF assms, of kf "isMinLevel i0"] obtain h' on' where
    r: "down_loop kf h n (isMinLevel i0) i0 = Some (h', on')"
      "sifted_down kf h n (isMinLevel i0) i0 h' on'"
    by blast
  have "isMinLevel i0 = even (depth i0)" by (rule isMinLevel_depth[OF assms(3,4)])
  with r have "down kf h i0 n = Some (h', i0 < on')"
    "sifted_down kf h n (even (depth i0)) i0 h' on'"
    by (simp_all add: down_def)
  then show ?thesis by blast
qed

lemma Init_loop_correct:
  assumes "h_Len h = n" "n < 2 ^ 60" "- 1 \<le> i" "i < n \<or> i = - 1"
    and "heap_from (key kf (items h)) n (i + 1)"
  shows "\<exists>h'. Init_loop kf h n i = Some h' \<and> h_Len h' = n
      \<and> mset (items h') = mset (items h) \<and> heap_from (key kf (items h')) n 0"
  using assms
proof (induction "nat (i + 1)" arbitrary: h i rule: less_induct)
  case less
  show ?case
  proof (cases "0 \<le> i")
    case False
    with less.prems have "i = - 1" by simp
    with less.prems show ?thesis
      by (subst Init_loop.simps) simp
  next
    case True
    with less.prems have b: "n \<le> h_Len h" "h_Len h < 2 ^ 60" "0 \<le> i" "i < 2 ^ 63" by simp_all
    from down_correct[OF b, of kf] obtain h1 on' where
      d: "down kf h i n = Some (h1, i < on')"
        "sifted_down kf h n (even (depth i)) i h1 on'"
      by blast
    have "heap_except (key kf (items h)) n i i"
      unfolding heap_except_def
    proof (intro allI impI, elim conjE)
      fix a j assume "i \<le> a" "a \<noteq> i" "j < n" "descendant a j"
      then have "i + 1 \<le> a" "j < n" "descendant a j" by simp_all
      from heap_fromD[OF less.prems(5) this]
      show "le_dir (even (depth a)) (key kf (items h) a) (key kf (items h) j)" .
    qed
    with d(2) have h1: "h_Len h1 = h_Len h" "mset (items h1) = mset (items h)"
      "heap_from (key kf (items h1)) n i"
      unfolding sifted_down_def by blast+
    have "nat (i - 1 + 1) < nat (i + 1)" using True by simp
    moreover have "h_Len h1 = n" "- 1 \<le> i - 1" "i - 1 < n \<or> i - 1 = - 1"
      "heap_from (key kf (items h1)) n (i - 1 + 1)"
      using h1 less.prems True by simp_all
    ultimately obtain h' where
      r: "Init_loop kf h1 n (i - 1) = Some h'" "h_Len h' = n"
        "mset (items h') = mset (items h1)" "heap_from (key kf (items h')) n 0"
      using less.hyps[of "i - 1" h1] less.prems(2) by blast
    have "Init_loop kf h n i = Some h'"
      by (subst Init_loop.simps) (simp add: True d(1) r(1))
    with r h1 show ?thesis by simp
  qed
qed

lemma Init_correct:
  assumes "h_Len h < 2 ^ 60"
  shows "\<exists>h'. Init kf h = Some h' \<and> h_Len h' = h_Len h
      \<and> mset (items h') = mset (items h) \<and> mmheap kf (items h')"
proof -
  let ?n = "h_Len h"
  have n0: "0 \<le> ?n" by (simp add: h_Len_def)
  then have sd: "?n sdiv 2 = ?n div 2" by (simp add: signed_divide_int_def sgn_if)
  have "heap_from (key kf (items h)) ?n (?n div 2 - 1 + 1)"
    unfolding heap_from_def
  proof (intro allI impI, elim conjE)
    fix i j assume "?n div 2 - 1 + 1 \<le> i" "j < ?n" "descendant i j"
    with descendant_ge[of i j] have False by linarith
    then show "le_dir (even (depth i)) (key kf (items h) i) (key kf (items h) j)" ..
  qed
  moreover have "- 1 \<le> ?n div 2 - 1" "?n div 2 - 1 < ?n \<or> ?n div 2 - 1 = - 1"
    using n0 by linarith+
  ultimately obtain h' where
    r: "Init_loop kf h ?n (?n div 2 - 1) = Some h'" "h_Len h' = ?n"
      "mset (items h') = mset (items h)" "heap_from (key kf (items h')) ?n 0"
    using Init_loop_correct[OF refl assms, of "?n div 2 - 1" kf] by blast
  from r(2,4) have "mmheap kf (items h')" by (simp add: mmheap_heap_from h_Len_def)
  with r sd show ?thesis by (simp add: Init_def Let_def)
qed

lemma mmheap_root_min:
  assumes "mmheap kf xs" "x \<in> set xs"
  shows "kf (xs ! 0) \<le> kf x"
proof -
  from assms(2) obtain j where j: "j < length xs" "x = xs ! j" by (auto simp: in_set_conv_nth)
  show ?thesis
  proof (cases "j = 0")
    case True
    with j show ?thesis by simp
  next
    case False
    then have d: "descendant 0 (int j)" by (intro descendant_root) simp
    from assms(1) have hf: "heap_from (key kf xs) (int (length xs)) 0"
      by (simp add: mmheap_heap_from)
    have "(0::int) \<le> 0" "int j < int (length xs)" using j(1) by simp_all
    from heap_fromD[OF hf this d]
    have "le_dir (even (depth 0)) (key kf xs 0) (key kf xs (int j))" .
    with j show ?thesis by (simp add: le_dir_def key_def)
  qed
qed

lemma Pop_correct:
  assumes inv: "mmheap kf (items h)" and ne: "items h \<noteq> []" and small: "h_Len h < 2 ^ 60"
  shows "\<exists>h1 h2 moved. h_Swap h 0 (h_Len h - 1) = Some h1
      \<and> down kf h1 0 (h_Len h - 1) = Some (h2, moved)
      \<and> h_Pop h2 = Some (items h ! 0, h2\<lparr>items := butlast (items h2)\<rparr>)
      \<and> Pop kf h = Some (items h ! 0, h2\<lparr>items := butlast (items h2)\<rparr>)
      \<and> mmheap kf (butlast (items h2))
      \<and> length (butlast (items h2)) = length (items h) - 1
      \<and> mset (items h) = add_mset (items h ! 0) (mset (butlast (items h2)))"
proof -
  let ?n = "h_Len h - 1"
  let ?f = "key kf (items h)"
  from ne have n0: "0 \<le> ?n" and len: "h_Len h = ?n + 1" and nn: "nat ?n = length (items h) - 1"
    by (simp_all add: h_Len_def)
  from n0 have r: "in_range h 0" "in_range h ?n" by (simp_all add: in_range_def)
  from h_Swap_in_range[OF r] obtain h1 where
    h1: "h_Swap h 0 ?n = Some h1" "h_Len h1 = h_Len h" "mset (items h1) = mset (items h)"
      "\<forall>x. 0 \<le> x \<longrightarrow> items h1 ! nat x =
         (if x = ?n then items h ! nat 0 else if x = 0 then items h ! nat ?n
          else items h ! nat x)"
    by blast
  have H: "heap_from ?f (?n + 1) 0" using inv len by (simp add: mmheap_heap_from h_Len_def)
  have E: "heap_except (key kf (items h1)) ?n 0 0"
    unfolding heap_except_def
  proof (intro allI impI, elim conjE)
    fix i j assume ij: "0 \<le> i" "i \<noteq> 0" "j < ?n" "descendant i j"
    from descendant_less[OF ij(4)] ij have "0 \<le> i" "i \<noteq> 0" "i \<noteq> ?n" "0 \<le> j" "j \<noteq> 0" "j \<noteq> ?n"
      by auto
    with h1(4) have "key kf (items h1) i = ?f i" "key kf (items h1) j = ?f j"
      by (simp_all add: key_def)
    moreover from ij have "j < ?n + 1" by simp
    from heap_fromD[OF H ij(1) this ij(4)] have "le_dir (even (depth i)) (?f i) (?f j)" .
    ultimately show "le_dir (even (depth i)) (key kf (items h1) i) (key kf (items h1) j)" by simp
  qed
  have b: "?n \<le> h_Len h1" "h_Len h1 < 2 ^ 60" "(0::int) \<le> 0" "(0::int) < 2 ^ 63"
    using h1(2) small by simp_all
  from down_correct[OF b, of kf] obtain h2 on' where
    d: "down kf h1 0 ?n = Some (h2, 0 < on')" "sifted_down kf h1 ?n (even (depth 0)) 0 h2 on'"
    by blast
  from d(2) E have h2: "h_Len h2 = h_Len h1" "mset (items h2) = mset (items h1)"
    "\<forall>j. 0 \<le> j \<and> (j < 0 \<or> ?n \<le> j) \<longrightarrow> items h2 ! nat j = items h1 ! nat j"
    "heap_from (key kf (items h2)) ?n 0"
    unfolding sifted_down_def by blast+
  from h2(1) h1(2) ne have ne2: "items h2 \<noteq> []" and l2: "length (items h2) = length (items h)"
    by (auto simp: h_Len_def)
  have "last (items h2) = items h2 ! nat ?n" using ne2 l2 nn by (simp add: last_conv_nth)
  also have "\<dots> = items h1 ! nat ?n" using h2(3) n0 by simp
  also have "\<dots> = items h ! 0" using h1(4) n0 by simp
  finally have last: "last (items h2) = items h ! 0" .
  have pop: "h_Pop h2 = Some (items h ! 0, h2\<lparr>items := butlast (items h2)\<rparr>)"
    using ne2 last by (simp add: h_Pop_def)
  have Pop: "Pop kf h = Some (items h ! 0, h2\<lparr>items := butlast (items h2)\<rparr>)"
    by (simp add: Pop_def Let_def h1(1) d(1) pop)
  have lb: "int (length (butlast (items h2))) = ?n"
    using l2 ne by (cases "items h") (simp_all add: h_Len_def)
  have "heap_from (key kf (butlast (items h2))) ?n 0"
  proof (rule heap_from_cong[OF h2(4)])
    show "\<forall>j. 0 \<le> j \<and> j < ?n \<longrightarrow> key kf (butlast (items h2)) j = key kf (items h2) j"
      using lb by (simp add: key_def nth_butlast nat_less_iff)
  qed simp
  then have inv': "mmheap kf (butlast (items h2))" using lb by (simp add: mmheap_heap_from)
  have "mset (items h2) = add_mset (last (items h2)) (mset (butlast (items h2)))"
    using ne2 by (metis append_butlast_last_id mset.simps(2) mset_rev rev.simps(2) rev_rev_ident union_mset_add_mset_right add.right_neutral mset_append)
  with h2(2) h1(3) last have ms: "mset (items h) = add_mset (items h ! 0) (mset (butlast (items h2)))"
    by simp
  have "length (butlast (items h2)) = length (items h) - 1" using l2 by simp
  with h1(1) d(1) pop Pop inv' ms show ?thesis by blast
qed

text \<open>The same, with what the sift inside \<open>Pop\<close> does to the sequence.\<close>

lemma Pop_sift:
  assumes inv: "mmheap kf (items h)" and ne: "items h \<noteq> []" and small: "h_Len h < 2 ^ 60"
  shows "\<exists>h1 h2 moved. h_Swap h 0 (h_Len h - 1) = Some h1
      \<and> down kf h1 0 (h_Len h - 1) = Some (h2, moved)
      \<and> mset (items h2) = mset (items h1)
      \<and> items h2 ! nat (h_Len h - 1) = items h1 ! nat (h_Len h - 1)
      \<and> length (items h2) = length (items h)
      \<and> h_Pop h2 = Some (items h ! 0, h2\<lparr>items := butlast (items h2)\<rparr>)
      \<and> Pop kf h = Some (items h ! 0, h2\<lparr>items := butlast (items h2)\<rparr>)
      \<and> mmheap kf (butlast (items h2))
      \<and> mset (items h) = add_mset (items h ! 0) (mset (butlast (items h2)))"
proof -
  let ?n = "h_Len h - 1"
  let ?f = "key kf (items h)"
  from ne have n0: "0 \<le> ?n" and len: "h_Len h = ?n + 1" and nn: "nat ?n = length (items h) - 1"
    by (simp_all add: h_Len_def)
  from n0 have r: "in_range h 0" "in_range h ?n" by (simp_all add: in_range_def)
  from h_Swap_in_range[OF r] obtain h1 where
    h1: "h_Swap h 0 ?n = Some h1" "h_Len h1 = h_Len h" "mset (items h1) = mset (items h)"
      "\<forall>x. 0 \<le> x \<longrightarrow> items h1 ! nat x =
         (if x = ?n then items h ! nat 0 else if x = 0 then items h ! nat ?n
          else items h ! nat x)"
    by blast
  have H: "heap_from ?f (?n + 1) 0" using inv len by (simp add: mmheap_heap_from h_Len_def)
  have E: "heap_except (key kf (items h1)) ?n 0 0"
    unfolding heap_except_def
  proof (intro allI impI, elim conjE)
    fix i j assume ij: "0 \<le> i" "i \<noteq> 0" "j < ?n" "descendant i j"
    from descendant_less[OF ij(4)] ij have "0 \<le> i" "i \<noteq> 0" "i \<noteq> ?n" "0 \<le> j" "j \<noteq> 0" "j \<noteq> ?n"
      by auto
    with h1(4) have "key kf (items h1) i = ?f i" "key kf (items h1) j = ?f j"
      by (simp_all add: key_def)
    moreover from ij have "j < ?n + 1" by simp
    from heap_fromD[OF H ij(1) this ij(4)] have "le_dir (even (depth i)) (?f i) (?f j)" .
    ultimately show "le_dir (even (depth i)) (key kf (items h1) i) (key kf (items h1) j)" by simp
  qed
  have b: "?n \<le> h_Len h1" "h_Len h1 < 2 ^ 60" "(0::int) \<le> 0" "(0::int) < 2 ^ 63"
    using h1(2) small by simp_all
  from down_correct[OF b, of kf] obtain h2 on' where
    d: "down kf h1 0 ?n = Some (h2, 0 < on')" "sifted_down kf h1 ?n (even (depth 0)) 0 h2 on'"
    by blast
  from d(2) E have h2: "h_Len h2 = h_Len h1" "mset (items h2) = mset (items h1)"
    "\<forall>j. 0 \<le> j \<and> (j < 0 \<or> ?n \<le> j) \<longrightarrow> items h2 ! nat j = items h1 ! nat j"
    "heap_from (key kf (items h2)) ?n 0"
    unfolding sifted_down_def by blast+
  from h2(1) h1(2) ne have ne2: "items h2 \<noteq> []" and l2: "length (items h2) = length (items h)"
    by (auto simp: h_Len_def)
  have "last (items h2) = items h2 ! nat ?n" using ne2 l2 nn by (simp add: last_conv_nth)
  also have "\<dots> = items h1 ! nat ?n" using h2(3) n0 by simp
  also have "\<dots> = items h ! 0" using h1(4) n0 by simp
  finally have last: "last (items h2) = items h ! 0" .
  have pop: "h_Pop h2 = Some (items h ! 0, h2\<lparr>items := butlast (items h2)\<rparr>)"
    using ne2 last by (simp add: h_Pop_def)
  have Pop: "Pop kf h = Some (items h ! 0, h2\<lparr>items := butlast (items h2)\<rparr>)"
    by (simp add: Pop_def Let_def h1(1) d(1) pop)
  have lb: "int (length (butlast (items h2))) = ?n"
    using l2 ne by (cases "items h") (simp_all add: h_Len_def)
  have "heap_from (key kf (butlast (items h2))) ?n 0"
  proof (rule heap_from_cong[OF h2(4)])
    show "\<forall>j. 0 \<le> j \<and> j < ?n \<longrightarrow> key kf (butlast (items h2)) j = key kf (items h2) j"
      using lb by (simp add: key_def nth_butlast nat_less_iff)
  qed simp
  then have inv': "mmheap kf (butlast (items h2))" using lb by (simp add: mmheap_heap_from)
  have "mset (items h2) = add_mset (last (items h2)) (mset (butlast (items h2)))"
    using ne2 by (metis append_butlast_last_id mset.simps(2) mset_rev rev.simps(2) rev_rev_ident union_mset_add_mset_right add.right_neutral mset_append)
  with h2(2) h1(3) last have ms: "mset (items h) = add_mset (items h ! 0) (mset (butlast (items h2)))"
    by simp
  have at: "items h2 ! nat ?n = items h1 ! nat ?n" using h2(3) n0 by simp
  show ?thesis
    by (intro exI[of _ h1] exI[of _ h2] exI[of _ "0 < on'"] conjI h1(1) d(1) h2(2) at l2 pop Pop
        inv' ms)
qed

section \<open>Popping in order\<close>

lemma PopN_correct:
  assumes "mmheap kf (items h)" "h_Len h < 2 ^ 60" "length (items h) = k"
  shows "\<exists>vs h2. PopN kf h k = Some (vs, h2) \<and> items h2 = []
      \<and> sorted (map kf vs) \<and> mset vs = mset (items h)"
  using assms
proof (induction k arbitrary: h)
  case 0
  then show ?case by simp
next
  case (Suc k)
  from Suc.prems(3) have ne: "items h \<noteq> []" by auto
  from Pop_correct[OF Suc.prems(1) ne Suc.prems(2)] obtain h2 where
    p: "Pop kf h = Some (items h ! 0, h2\<lparr>items := butlast (items h2)\<rparr>)"
      "mmheap kf (butlast (items h2))"
      "length (butlast (items h2)) = length (items h) - 1"
      "mset (items h) = add_mset (items h ! 0) (mset (butlast (items h2)))"
    by blast
  let ?h' = "h2\<lparr>items := butlast (items h2)\<rparr>"
  have "mmheap kf (items ?h')" "h_Len ?h' < 2 ^ 60" "length (items ?h') = k"
    using p(2,3) Suc.prems(2,3) by (simp_all add: h_Len_def)
  from Suc.IH[OF this] obtain vs h3 where
    r: "PopN kf ?h' k = Some (vs, h3)" "items h3 = []" "sorted (map kf vs)"
      "mset vs = mset (items ?h')"
    by blast
  have res: "PopN kf h (Suc k) = Some (items h ! 0 # vs, h3)"
    by (simp add: p(1) r(1))
  have "kf (items h ! 0) \<le> kf x" if "x \<in> set vs" for x
  proof -
    from that r(4) have "x \<in># mset (items ?h')" by (metis set_mset_mset)
    with p(4) have "x \<in># mset (items h)" by simp
    then have "x \<in> set (items h)" by simp
    with Suc.prems(1) show ?thesis by (rule mmheap_root_min)
  qed
  with r(3) have "sorted (map kf (items h ! 0 # vs))" by auto
  moreover have "mset (items h ! 0 # vs) = mset (items h)" using r(4) p(4) by simp
  ultimately show ?case using res r(2) by blast
qed

text \<open>
  C2.  For every sequence (of a length whose index arithmetic does not wrap), \<open>Init\<close>
  followed by as many \<open>Pop\<close>s as there are elements returns every element once, in
  non-decreasing order of the keys: the keys come out as the sorted form of the keys put
  in, the values are the multiset put in, and the sequence is empty afterwards.
\<close>

theorem Init_PopN_sorted:
  assumes "h_Len h < 2 ^ 60"
  shows "\<exists>h1 vs h2. Init kf h = Some h1 \<and> PopN kf h1 (length (items h)) = Some (vs, h2)
      \<and> items h2 = [] \<and> mset vs = mset (items h)
      \<and> map kf vs = sort (map kf (items h))"
proof -
  from Init_correct[OF assms, of kf] obtain h1 where
    i: "Init kf h = Some h1" "h_Len h1 = h_Len h" "mset (items h1) = mset (items h)"
      "mmheap kf (items h1)"
    by blast
  from i(2) have l: "length (items h1) = length (items h)" by (simp add: h_Len_def)
  from i(2) assms have "h_Len h1 < 2 ^ 60" by simp
  from PopN_correct[OF i(4) this l] obtain vs h2 where
    p: "PopN kf h1 (length (items h)) = Some (vs, h2)" "items h2 = []"
      "sorted (map kf vs)" "mset vs = mset (items h1)"
    by blast
  from p(4) i(3) have ms: "mset vs = mset (items h)" by simp
  then have "mset (map kf vs) = mset (map kf (items h))" by simp
  from properties_for_sort[OF this p(3)] have "map kf vs = sort (map kf (items h))" by simp
  with i(1) p(1,2) ms show ?thesis by blast
qed

theorem Init_PopN_sorted_witness:
  "h_Len \<lparr>items = [3, 1, 2 :: int], nswaps = 0\<rparr> < 2 ^ 60
   \<and> (\<exists>h1 vs h2. Init (\<lambda>x. x) \<lparr>items = [3, 1, 2 :: int], nswaps = 0\<rparr> = Some h1
        \<and> PopN (\<lambda>x. x) h1 (length (items \<lparr>items = [3, 1, 2 :: int], nswaps = 0\<rparr>)) = Some (vs, h2)
        \<and> items h2 = [] \<and> mset vs = mset (items \<lparr>items = [3, 1, 2 :: int], nswaps = 0\<rparr>)
        \<and> map (\<lambda>x. x) vs = sort (map (\<lambda>x. x) (items \<lparr>items = [3, 1, 2 :: int], nswaps = 0\<rparr>)))"
proof -
  have a: "h_Len \<lparr>items = [3, 1, 2 :: int], nswaps = 0\<rparr> < 2 ^ 60"
    by (simp add: h_Len_def)
  show ?thesis
    by (intro conjI a Init_PopN_sorted [OF a])
qed

text \<open>
  C3.  On a sequence of length \<open>n \<ge> 1\<close> with the min-max heap property, \<open>Pop\<close> swaps the
  indices 0 and \<open>n - 1\<close>, sifts index 0 down over the first \<open>n - 1\<close> elements, and removes
  and returns the last element.  The sift permutes the sequence, leaves index \<open>n - 1\<close>
  alone and makes the first \<open>n - 1\<close> elements a min-max heap; so the value returned is
  the old root, a least one of the values held before, the sequence left is the other
  values as a min-max heap, and its length is \<open>n - 1\<close>.
\<close>

theorem Pop_returns_minimum:
  assumes "mmheap kf (items h)" and "1 \<le> h_Len h" and "h_Len h < 2 ^ 60"
  shows "\<exists>h1 h2 moved v h'. h_Swap h 0 (h_Len h - 1) = Some h1
      \<and> down kf h1 0 (h_Len h - 1) = Some (h2, moved)
      \<and> mset (items h2) = mset (items h1)
      \<and> items h2 ! nat (h_Len h - 1) = items h1 ! nat (h_Len h - 1)
      \<and> mmheap kf (take (nat (h_Len h - 1)) (items h2))
      \<and> h_Pop h2 = Some (v, h')
      \<and> Pop kf h = Some (v, h')
      \<and> v = items h ! 0
      \<and> items h' = take (nat (h_Len h - 1)) (items h2)
      \<and> mmheap kf (items h')
      \<and> (\<forall>x \<in> set (items h). kf v \<le> kf x)
      \<and> mset (items h) = add_mset v (mset (items h'))
      \<and> h_Len h' = h_Len h - 1"
proof -
  from assms(2) have ne: "items h \<noteq> []" by (auto simp: h_Len_def)
  from Pop_sift[OF assms(1) ne assms(3)] obtain h1 h2 moved where
    p: "h_Swap h 0 (h_Len h - 1) = Some h1"
      "down kf h1 0 (h_Len h - 1) = Some (h2, moved)"
      "mset (items h2) = mset (items h1)"
      "items h2 ! nat (h_Len h - 1) = items h1 ! nat (h_Len h - 1)"
      "length (items h2) = length (items h)"
      "h_Pop h2 = Some (items h ! 0, h2\<lparr>items := butlast (items h2)\<rparr>)"
      "Pop kf h = Some (items h ! 0, h2\<lparr>items := butlast (items h2)\<rparr>)"
      "mmheap kf (butlast (items h2))"
      "mset (items h) = add_mset (items h ! 0) (mset (butlast (items h2)))"
    by blast
  let ?h' = "h2\<lparr>items := butlast (items h2)\<rparr>"
  have nn: "nat (h_Len h - 1) = length (items h2) - 1" using p(5) by (simp add: h_Len_def)
  have bl: "butlast (items h2) = take (nat (h_Len h - 1)) (items h2)"
    unfolding nn by (rule butlast_conv_take)
  have A: "mmheap kf (take (nat (h_Len h - 1)) (items h2))" using p(8) bl by simp
  have B: "items ?h' = take (nat (h_Len h - 1)) (items h2)" using bl by simp
  have C: "mmheap kf (items ?h')" using p(8) by simp
  have D: "\<forall>x \<in> set (items h). kf (items h ! 0) \<le> kf x"
    using mmheap_root_min[OF assms(1)] by blast
  have E: "mset (items h) = add_mset (items h ! 0) (mset (items ?h'))"
    using p(9) by simp
  have F: "h_Len ?h' = h_Len h - 1"
    using p(5) ne by (cases "items h") (simp_all add: h_Len_def)
  show ?thesis
    by (intro exI[of _ h1] exI[of _ h2] exI[of _ moved] exI[of _ "items h ! 0"] exI[of _ ?h']
        conjI p(1,2,3,4,6,7) A B C D E F refl)
qed

theorem Pop_returns_minimum_witness:
  "mmheap (\<lambda>x. x) (items \<lparr>items = [1, 9, 8, 2, 3, 4 :: int], nswaps = 0\<rparr>)
   \<and> 1 \<le> h_Len \<lparr>items = [1, 9, 8, 2, 3, 4 :: int], nswaps = 0\<rparr>
   \<and> h_Len \<lparr>items = [1, 9, 8, 2, 3, 4 :: int], nswaps = 0\<rparr> < 2 ^ 60
   \<and> (\<exists>h1 h2 moved v h'.
        h_Swap \<lparr>items = [1, 9, 8, 2, 3, 4 :: int], nswaps = 0\<rparr> 0 (h_Len \<lparr>items = [1, 9, 8, 2, 3, 4 :: int], nswaps = 0\<rparr> - 1) = Some h1
      \<and> down (\<lambda>x. x) h1 0 (h_Len \<lparr>items = [1, 9, 8, 2, 3, 4 :: int], nswaps = 0\<rparr> - 1) = Some (h2, moved)
      \<and> mset (items h2) = mset (items h1)
      \<and> items h2 ! nat (h_Len \<lparr>items = [1, 9, 8, 2, 3, 4 :: int], nswaps = 0\<rparr> - 1) = items h1 ! nat (h_Len \<lparr>items = [1, 9, 8, 2, 3, 4 :: int], nswaps = 0\<rparr> - 1)
      \<and> mmheap (\<lambda>x. x) (take (nat (h_Len \<lparr>items = [1, 9, 8, 2, 3, 4 :: int], nswaps = 0\<rparr> - 1)) (items h2))
      \<and> h_Pop h2 = Some (v, h')
      \<and> Pop (\<lambda>x. x) \<lparr>items = [1, 9, 8, 2, 3, 4 :: int], nswaps = 0\<rparr> = Some (v, h')
      \<and> v = items \<lparr>items = [1, 9, 8, 2, 3, 4 :: int], nswaps = 0\<rparr> ! 0
      \<and> items h' = take (nat (h_Len \<lparr>items = [1, 9, 8, 2, 3, 4 :: int], nswaps = 0\<rparr> - 1)) (items h2)
      \<and> mmheap (\<lambda>x. x) (items h')
      \<and> (\<forall>x \<in> set (items \<lparr>items = [1, 9, 8, 2, 3, 4 :: int], nswaps = 0\<rparr>). v \<le> x)
      \<and> mset (items \<lparr>items = [1, 9, 8, 2, 3, 4 :: int], nswaps = 0\<rparr>) = add_mset v (mset (items h'))
      \<and> h_Len h' = h_Len \<lparr>items = [1, 9, 8, 2, 3, 4 :: int], nswaps = 0\<rparr> - 1)"
proof -
  have a: "mmheap (\<lambda>x. x) (items \<lparr>items = [1, 9, 8, 2, 3, 4 :: int], nswaps = 0\<rparr>)"
    by code_simp
  have b: "1 \<le> h_Len \<lparr>items = [1, 9, 8, 2, 3, 4 :: int], nswaps = 0\<rparr>"
    by (simp add: h_Len_def)
  have c: "h_Len \<lparr>items = [1, 9, 8, 2, 3, 4 :: int], nswaps = 0\<rparr> < 2 ^ 60"
    by (simp add: h_Len_def)
  show ?thesis
    by (intro conjI a b c Pop_returns_minimum [OF a b c])
qed

section \<open>The maximum, and the selection inside down\<close>

lemma depth_1 [simp]: "depth 1 = 1"
  using depth_left[of 0] by simp

lemma depth_2 [simp]: "depth 2 = 1"
  using depth_right[of 0] by simp

lemma below_root_children:
  assumes "0 < j"
  shows "j = 1 \<or> j = 2 \<or> descendant 1 j \<or> descendant 2 j"
proof -
  from descendant_root[OF assms] descendant_down[of 0 j]
  show ?thesis by (auto simp: children_def)
qed

lemma mmheap_level1_max:
  assumes inv: "mmheap kf xs" and c: "c = 1 \<or> c = 2" and d: "descendant c j" and j: "j < int (length xs)"
  shows "kf (xs ! nat j) \<le> kf (xs ! nat c)"
proof -
  from inv have hf: "heap_from (key kf xs) (int (length xs)) 0" by (simp add: mmheap_heap_from)
  from c have "0 \<le> c" by auto
  from heap_fromD[OF hf this j d] c show ?thesis
    by (auto simp: le_dir_def key_def)
qed

text \<open>
  C4.  On a sequence of length \<open>n \<ge> 1\<close> with the min-max heap property, \<open>Max\<close> returns 0
  when \<open>n = 1\<close>, 1 when \<open>n = 2\<close>, and otherwise 2 when \<open>Less(1, 2)\<close> holds and 1 when it
  does not; the key at the index returned is a greatest one of the sequence.
\<close>

theorem Max_index_maximum:
  assumes "mmheap kf (items h)" and "1 \<le> h_Len h"
  shows "\<exists>i. Max_index kf h = Some i
      \<and> i = (if h_Len h = 1 then 0 else if h_Len h = 2 then 1
              else if h_Less kf h 1 2 = Some True then 2 else 1)
      \<and> in_range h i
      \<and> (\<forall>x \<in> set (items h). kf x \<le> kf (items h ! nat i))"
proof -
  let ?xs = "items h"
  let ?n = "h_Len h"
  have all: "\<forall>x \<in> set ?xs. kf x \<le> kf (?xs ! nat i)"
    if "\<forall>j. 0 \<le> j \<and> j < ?n \<longrightarrow> kf (?xs ! nat j) \<le> kf (?xs ! nat i)" for i
  proof
    fix x assume "x \<in> set ?xs"
    then obtain j where "j < length ?xs" "x = ?xs ! j" by (auto simp: in_set_conv_nth)
    with that[rule_format, of "int j"] show "kf x \<le> kf (?xs ! nat i)" by (simp add: h_Len_def)
  qed
  consider "?n = 1" | "?n = 2" | "2 < ?n" using assms(2) by linarith
  then show ?thesis
  proof cases
    case 1
    then have "Max_index kf h = Some 0" "in_range h 0" by (simp_all add: Max_index_def in_range_def)
    moreover have "\<forall>j. 0 \<le> j \<and> j < ?n \<longrightarrow> kf (?xs ! nat j) \<le> kf (?xs ! nat 0)"
      using 1 by (auto simp: dest!: zle_diff1_eq[THEN iffD2])
    ultimately show ?thesis using 1 all[of 0] by simp
  next
    case 2
    then have r: "Max_index kf h = Some 1" "in_range h 1" by (simp_all add: Max_index_def in_range_def)
    have "kf (?xs ! nat j) \<le> kf (?xs ! nat 1)" if "0 \<le> j \<and> j < ?n" for j
    proof -
      from that 2 have "j = 0 \<or> j = 1" by linarith
      moreover have "?xs ! 1 \<in> set ?xs" using 2 by (simp add: h_Len_def)
      from mmheap_root_min[OF assms(1) this] have "kf (?xs ! 0) \<le> kf (?xs ! 1)" .
      ultimately show ?thesis by auto
    qed
    with r 2 all[of 1] show ?thesis by simp
  next
    case 3
    then have r12: "in_range h 1" "in_range h 2" by (simp_all add: in_range_def)
    define b where "b = (kf (?xs ! 1) < kf (?xs ! 2))"
    have less: "h_Less kf h 1 2 = Some b"
      using h_Less_in_range[OF r12, of kf] by (simp add: b_def key_def)
    define i :: int where "i = (if b then 2 else 1)"
    have res: "Max_index kf h = Some i" using 3 less by (simp add: Max_index_def i_def)
    have ri: "in_range h i" using r12 by (simp add: i_def)
    have i12: "kf (?xs ! 1) \<le> kf (?xs ! nat i)" "kf (?xs ! 2) \<le> kf (?xs ! nat i)"
      by (auto simp: i_def b_def)
    have "kf (?xs ! nat j) \<le> kf (?xs ! nat i)" if j: "0 \<le> j \<and> j < ?n" for j
    proof (cases "j = 0")
      case True
      have "?xs ! 1 \<in> set ?xs" using 3 by (simp add: h_Len_def)
      from mmheap_root_min[OF assms(1) this] i12(1) True show ?thesis by simp
    next
      case False
      with j have "0 < j" by simp
      from below_root_children[OF this]
      consider "j = 1" | "j = 2" | c where "c = 1 \<or> c = 2" "descendant c j" by blast
      then show ?thesis
      proof cases
        case 1
        with i12 show ?thesis by simp
      next
        case 2
        with i12 show ?thesis by simp
      next
        case 3
        from j have "j < int (length ?xs)" by (simp add: h_Len_def)
        from mmheap_level1_max[OF assms(1) 3 this] have "kf (?xs ! nat j) \<le> kf (?xs ! nat c)" .
        with 3(1) i12 show ?thesis by auto
      qed
    qed
    with all[of i] have "\<forall>x \<in> set ?xs. kf x \<le> kf (?xs ! nat i)" by blast
    moreover have "i = (if ?n = 1 then 0 else if ?n = 2 then 1
              else if h_Less kf h 1 2 = Some True then 2 else 1)"
      using 3 less by (simp add: i_def)
    ultimately show ?thesis using res ri by blast
  qed
qed

theorem Max_index_maximum_witness:
  "mmheap (\<lambda>x. x) (items \<lparr>items = [1, 7, 9, 4 :: int], nswaps = 0\<rparr>)
   \<and> 1 \<le> h_Len \<lparr>items = [1, 7, 9, 4 :: int], nswaps = 0\<rparr>
   \<and> (\<exists>i. Max_index (\<lambda>x. x) \<lparr>items = [1, 7, 9, 4 :: int], nswaps = 0\<rparr> = Some i
      \<and> i = (if h_Len \<lparr>items = [1, 7, 9, 4 :: int], nswaps = 0\<rparr> = 1 then 0
              else if h_Len \<lparr>items = [1, 7, 9, 4 :: int], nswaps = 0\<rparr> = 2 then 1
              else if h_Less (\<lambda>x. x) \<lparr>items = [1, 7, 9, 4 :: int], nswaps = 0\<rparr> 1 2 = Some True
                   then 2 else 1)
      \<and> in_range \<lparr>items = [1, 7, 9, 4 :: int], nswaps = 0\<rparr> i
      \<and> (\<forall>x \<in> set (items \<lparr>items = [1, 7, 9, 4 :: int], nswaps = 0\<rparr>).
            x \<le> items \<lparr>items = [1, 7, 9, 4 :: int], nswaps = 0\<rparr> ! nat i))"
proof -
  have a: "mmheap (\<lambda>x. x) (items \<lparr>items = [1, 7, 9, 4 :: int], nswaps = 0\<rparr>)"
    by code_simp
  have b: "1 \<le> h_Len \<lparr>items = [1, 7, 9, 4 :: int], nswaps = 0\<rparr>"
    by (simp add: h_Len_def)
  show ?thesis
    by (intro conjI a b Max_index_maximum [OF a b])
qed

text \<open>
  C8.  In an iteration of \<open>down\<close> at an index \<open>on \<ge> 0\<close>, over a sequence whose index
  arithmetic does not wrap, the selection returns \<open>on\<close> itself or one of the candidates
  \<open>2 on + 1\<close>, \<open>2 on + 2\<close>, \<open>4 on + 3\<close>, ..., \<open>4 on + 6\<close> that lie in \<open>[0, n)\<close>, tagged with
  its relation to \<open>on\<close>, and its key is extreme among \<open>on\<close> and all of those candidates:
  least on a min level, greatest on a max level.
\<close>

theorem down_selects_extreme:
  assumes "n \<le> h_Len h" and "h_Len h < 2 ^ 60" and "0 \<le> on" and "on < 2 ^ 63"
  shows "\<exists>s. select kf h n onMinLevel (progenies on) \<lparr>index = on, relation = self\<rparr> = Some s
      \<and> index s \<in> insert on {c \<in> children on \<union> grandchildren on. 0 \<le> c \<and> c < n}
      \<and> (relation s = self \<longleftrightarrow> index s = on)
      \<and> (relation s = child \<longleftrightarrow> index s \<in> children on)
      \<and> (relation s = grandchild \<longleftrightarrow> index s \<in> grandchildren on)
      \<and> (\<forall>c \<in> insert on {c \<in> children on \<union> grandchildren on. 0 \<le> c \<and> c < n}.
            if onMinLevel then kf (items h ! nat (index s)) \<le> kf (items h ! nat c)
            else kf (items h ! nat c) \<le> kf (items h ! nat (index s)))"
proof -
  let ?s0 = "\<lparr>index = on, relation = self\<rparr>"
  let ?f = "key kf (items h)"
  from select_progenies[OF assms, of kf onMinLevel] obtain s where
    sel: "select kf h n onMinLevel (progenies on) ?s0 = Some s"
    and cases: "s = ?s0
          \<or> index s \<in> children on \<and> relation s = child \<and> index s < n
          \<or> index s \<in> grandchildren on \<and> relation s = grandchild \<and> index s < n"
    and s_on: "le_dir onMinLevel (?f (index s)) (?f on)"
    and s_ext: "\<forall>c \<in> children on \<union> grandchildren on. c < n \<longrightarrow>
        le_dir onMinLevel (?f (index s)) (?f c)"
    by blast
  have disj: "on \<notin> children on" "on \<notin> grandchildren on" "children on \<inter> grandchildren on = {}"
    using assms(3) by (auto simp: children_def grandchildren_def)
  have pos: "\<forall>c \<in> children on \<union> grandchildren on. 0 \<le> c"
    using assms(3) by (auto simp: children_def grandchildren_def)
  from cases pos have A: "index s \<in> insert on {c \<in> children on \<union> grandchildren on. 0 \<le> c \<and> c < n}"
    by auto
  from cases disj have B: "relation s = self \<longleftrightarrow> index s = on"
    "relation s = child \<longleftrightarrow> index s \<in> children on"
    "relation s = grandchild \<longleftrightarrow> index s \<in> grandchildren on"
    by auto
  have C: "\<forall>c \<in> insert on {c \<in> children on \<union> grandchildren on. 0 \<le> c \<and> c < n}.
            if onMinLevel then kf (items h ! nat (index s)) \<le> kf (items h ! nat c)
            else kf (items h ! nat c) \<le> kf (items h ! nat (index s))"
  proof
    fix c assume "c \<in> insert on {c \<in> children on \<union> grandchildren on. 0 \<le> c \<and> c < n}"
    with s_on s_ext have "le_dir onMinLevel (?f (index s)) (?f c)" by auto
    then show "if onMinLevel then kf (items h ! nat (index s)) \<le> kf (items h ! nat c)
            else kf (items h ! nat c) \<le> kf (items h ! nat (index s))"
      by (simp add: le_dir_def key_def)
  qed
  show ?thesis
    by (rule exI[of _ s]) (intro conjI sel A B C)
qed

theorem down_selects_extreme_witness:
  "(3::int) \<le> h_Len \<lparr>items = [5, 4, 1 :: int], nswaps = 0\<rparr>
   \<and> h_Len \<lparr>items = [5, 4, 1 :: int], nswaps = 0\<rparr> < 2 ^ 60 \<and> (0::int) \<le> 0 \<and> (0::int) < 2 ^ 63
   \<and> (\<exists>s. select (\<lambda>x. x) \<lparr>items = [5, 4, 1 :: int], nswaps = 0\<rparr> 3 True (progenies 0)
              \<lparr>index = 0, relation = self\<rparr> = Some s
      \<and> index s \<in> insert 0 {c \<in> children 0 \<union> grandchildren 0. 0 \<le> c \<and> c < 3}
      \<and> (relation s = self \<longleftrightarrow> index s = 0)
      \<and> (relation s = child \<longleftrightarrow> index s \<in> children 0)
      \<and> (relation s = grandchild \<longleftrightarrow> index s \<in> grandchildren 0)
      \<and> (\<forall>c \<in> insert 0 {c \<in> children 0 \<union> grandchildren 0. 0 \<le> c \<and> c < 3}.
            if True then items \<lparr>items = [5, 4, 1 :: int], nswaps = 0\<rparr> ! nat (index s)
                         \<le> items \<lparr>items = [5, 4, 1 :: int], nswaps = 0\<rparr> ! nat c
            else items \<lparr>items = [5, 4, 1 :: int], nswaps = 0\<rparr> ! nat c
                         \<le> items \<lparr>items = [5, 4, 1 :: int], nswaps = 0\<rparr> ! nat (index s)))"
proof -
  have a: "(3::int) \<le> h_Len \<lparr>items = [5, 4, 1 :: int], nswaps = 0\<rparr>"
    by (simp add: h_Len_def)
  have b: "h_Len \<lparr>items = [5, 4, 1 :: int], nswaps = 0\<rparr> < 2 ^ 60"
    by (simp add: h_Len_def)
  have c: "(0::int) \<le> 0" by simp
  have d: "(0::int) < 2 ^ 63" by simp
  show ?thesis
    by (intro conjI a b c d down_selects_extreme [OF a b c d])
qed

section \<open>Sifting up, and the permutation of the sequence\<close>

lemma child_of_parent: "0 < i \<Longrightarrow> 0 \<le> parent i \<and> parent i < i \<and> i \<in> children (parent i)"
  by (simp add: parent_pos children_def) presburger

lemma grandchild_of_grandparent:
  assumes "2 < i"
  shows "0 \<le> grandparent i \<and> grandparent i < i \<and> i \<in> grandchildren (grandparent i)"
proof -
  from assms have i: "0 < i" by simp
  from child_of_parent[OF i] assms have p: "0 < parent i"
    by (auto simp: children_def)
  from child_of_parent[OF p] child_of_parent[OF i] show ?thesis
    unfolding grandparent_def grandchildren_children by auto
qed

text \<open>\<open>up\<close> from an index of the sequence returns, and permutes the sequence.\<close>

lemma up_loop_perm:
  assumes "in_range h on"
  shows "\<exists>h'. up_loop kf h m on = Some h' \<and> h_Len h' = h_Len h
      \<and> mset (items h') = mset (items h)"
  using assms
proof (induction "nat on" arbitrary: h on rule: less_induct)
  case less
  show ?case
  proof (cases "hasGrandparent on")
    case False
    then show ?thesis by (subst up_loop.simps) simp
  next
    case True
    then have on: "2 < on" by (simp add: hasGrandparent_def)
    let ?gp = "grandparent on"
    from grandchild_of_grandparent[OF on] have gp: "0 \<le> ?gp" "?gp < on" by simp_all
    with less.prems have r: "in_range h ?gp" by (simp add: in_range_def)
    define b where "b = (key kf (items h) on < key kf (items h) ?gp)"
    have l: "h_Less kf h on ?gp = Some b"
      using h_Less_in_range[OF less.prems r, of kf] by (simp add: b_def)
    show ?thesis
    proof (cases "m = b")
      case False
      then have nb: "(m = b) = False" by simp
      have "up_loop kf h m on = Some h"
        by (subst up_loop.simps) (simp add: True l nb)
      then show ?thesis by simp
    next
      case mb: True
      then have bm: "b = m" by simp
      from h_Swap_in_range[OF less.prems r] obtain h1 where
        h1: "h_Swap h on ?gp = Some h1" "h_Len h1 = h_Len h" "mset (items h1) = mset (items h)"
        by blast
      from r h1(2) have r1: "in_range h1 ?gp" by (simp add: in_range_def)
      have "nat ?gp < nat on" using gp by simp
      from less.hyps[OF this r1] obtain h' where
        rec: "up_loop kf h1 m ?gp = Some h'" "h_Len h' = h_Len h1"
          "mset (items h') = mset (items h1)"
        by blast
      have "up_loop kf h m on = Some h'"
        by (subst up_loop.simps) (simp add: True l bm h1(1) rec(1))
      with rec h1 show ?thesis by simp
    qed
  qed
qed

lemma up_perm:
  assumes "in_range h on"
  shows "\<exists>h'. up kf h on = Some h' \<and> h_Len h' = h_Len h \<and> mset (items h') = mset (items h)"
proof (cases "hasParent on")
  case False
  with up_loop_perm[OF assms, of kf "isMinLevel on"] show ?thesis
    by (simp add: up_def Let_def)
next
  case True
  then have on: "0 < on" by (simp add: hasParent_def)
  let ?p = "parent on"
  from child_of_parent[OF on] have p: "0 \<le> ?p" "?p < on" by simp_all
  with assms have r: "in_range h ?p" by (simp add: in_range_def)
  define b where "b = (key kf (items h) ?p < key kf (items h) on)"
  have l: "h_Less kf h ?p on = Some b"
    using h_Less_in_range[OF r assms, of kf] by (simp add: b_def)
  show ?thesis
  proof (cases "isMinLevel on = b")
    case False
    then have nb: "(isMinLevel on = b) = False" by simp
    have "up kf h on = up_loop kf h (isMinLevel on) on"
      by (simp add: up_def Let_def True l nb)
    with up_loop_perm[OF assms, of kf "isMinLevel on"] show ?thesis by simp
  next
    case mb: True
    from h_Swap_in_range[OF assms r] obtain h1 where
      h1: "h_Swap h on ?p = Some h1" "h_Len h1 = h_Len h" "mset (items h1) = mset (items h)"
      by blast
    from r h1(2) have r1: "in_range h1 ?p" by (simp add: in_range_def)
    have "up kf h on = up_loop kf h1 (\<not> isMinLevel on) ?p"
      using mb by (simp add: up_def Let_def True l h1(1))
    with up_loop_perm[OF r1, of kf "\<not> isMinLevel on"] h1 show ?thesis by simp
  qed
qed

lemma Fix_perm:
  assumes "h_Len h < 2 ^ 60" "in_range h i"
  shows "\<exists>h'. Fix kf h i = Some h' \<and> h_Len h' = h_Len h \<and> mset (items h') = mset (items h)"
proof -
  from assms have b: "h_Len h \<le> h_Len h" "h_Len h < 2 ^ 60" "0 \<le> i" "i < 2 ^ 63"
    by (simp_all add: in_range_def)
  from down_correct[OF b, of kf] obtain h1 on' where
    d: "down kf h i (h_Len h) = Some (h1, i < on')"
      "sifted_down kf h (h_Len h) (even (depth i)) i h1 on'"
    by blast
  from d(2) have h1: "h_Len h1 = h_Len h" "mset (items h1) = mset (items h)"
    unfolding sifted_down_def by blast+
  show ?thesis
  proof (cases "i < on'")
    case True
    with d(1) h1 show ?thesis by (simp add: Fix_def)
  next
    case False
    from assms(2) h1(1) have "in_range h1 i" by (simp add: in_range_def)
    from up_perm[OF this, of kf] obtain h' where
      u: "up kf h1 i = Some h'" "h_Len h' = h_Len h1" "mset (items h') = mset (items h1)"
      by blast
    with False d(1) h1 show ?thesis by (simp add: Fix_def)
  qed
qed

text \<open>
  C10.  \<open>Init\<close> on any sequence, and \<open>Fix\<close> at any index of the sequence, return with the
  same length and the same multiset of values: they permute the sequence.
\<close>

theorem Init_Fix_permute:
  assumes "h_Len h < 2 ^ 60"
  shows "(\<exists>h'. Init kf h = Some h' \<and> length (items h') = length (items h)
            \<and> mset (items h') = mset (items h))
      \<and> (in_range h i \<longrightarrow>
           (\<exists>h'. Fix kf h i = Some h' \<and> length (items h') = length (items h)
              \<and> mset (items h') = mset (items h)))"
proof
  from Init_correct[OF assms, of kf]
  show "\<exists>h'. Init kf h = Some h' \<and> length (items h') = length (items h)
            \<and> mset (items h') = mset (items h)"
    by (auto simp: h_Len_def)
next
  show "in_range h i \<longrightarrow>
           (\<exists>h'. Fix kf h i = Some h' \<and> length (items h') = length (items h)
              \<and> mset (items h') = mset (items h))"
  proof
    assume "in_range h i"
    from Fix_perm[OF assms this, of kf]
    show "\<exists>h'. Fix kf h i = Some h' \<and> length (items h') = length (items h)
              \<and> mset (items h') = mset (items h)"
      by (auto simp: h_Len_def)
  qed
qed

theorem Init_Fix_permute_witness:
  "h_Len \<lparr>items = [4, 2, 9, 1 :: int], nswaps = 0\<rparr> < 2 ^ 60
   \<and> (\<exists>h'. Init (\<lambda>x. x) \<lparr>items = [4, 2, 9, 1 :: int], nswaps = 0\<rparr> = Some h'
        \<and> length (items h') = length (items \<lparr>items = [4, 2, 9, 1 :: int], nswaps = 0\<rparr>)
        \<and> mset (items h') = mset (items \<lparr>items = [4, 2, 9, 1 :: int], nswaps = 0\<rparr>))
   \<and> in_range \<lparr>items = [4, 2, 9, 1 :: int], nswaps = 0\<rparr> 3
   \<and> (\<exists>h'. Fix (\<lambda>x. x) \<lparr>items = [4, 2, 9, 1 :: int], nswaps = 0\<rparr> 3 = Some h'
        \<and> length (items h') = length (items \<lparr>items = [4, 2, 9, 1 :: int], nswaps = 0\<rparr>)
        \<and> mset (items h') = mset (items \<lparr>items = [4, 2, 9, 1 :: int], nswaps = 0\<rparr>))"
proof -
  have a: "h_Len \<lparr>items = [4, 2, 9, 1 :: int], nswaps = 0\<rparr> < 2 ^ 60"
    by (simp add: h_Len_def)
  have b: "in_range \<lparr>items = [4, 2, 9, 1 :: int], nswaps = 0\<rparr> 3"
    by (simp add: in_range_def h_Len_def)
  from Init_Fix_permute [OF a, of "\<lambda>x. x" 3] b
  have "(\<exists>h'. Init (\<lambda>x. x) \<lparr>items = [4, 2, 9, 1 :: int], nswaps = 0\<rparr> = Some h'
        \<and> length (items h') = length (items \<lparr>items = [4, 2, 9, 1 :: int], nswaps = 0\<rparr>)
        \<and> mset (items h') = mset (items \<lparr>items = [4, 2, 9, 1 :: int], nswaps = 0\<rparr>))"
    and "(\<exists>h'. Fix (\<lambda>x. x) \<lparr>items = [4, 2, 9, 1 :: int], nswaps = 0\<rparr> 3 = Some h'
        \<and> length (items h') = length (items \<lparr>items = [4, 2, 9, 1 :: int], nswaps = 0\<rparr>)
        \<and> mset (items h') = mset (items \<lparr>items = [4, 2, 9, 1 :: int], nswaps = 0\<rparr>))"
    by blast+
  with a b show ?thesis by (intro conjI)
qed

section \<open>Fix on an unchanged element\<close>

lemma select_keep:
  assumes "in_range h (index s0)" "n \<le> h_Len h"
    and "\<forall>p \<in> set ps. 0 \<le> index p \<and> index p < n \<longrightarrow>
           m \<noteq> (key kf (items h) (index p) < key kf (items h) (index s0))"
  shows "select kf h n m ps s0 = Some s0"
  using assms(3)
proof (induction ps)
  case Nil
  then show ?case by simp
next
  case (Cons p ps)
  show ?case
  proof (cases "index p \<ge> n \<or> index p < 0")
    case True
    then show ?thesis by simp
  next
    case False
    with assms(2) have r: "in_range h (index p)" by (simp add: in_range_def)
    define b where "b = (key kf (items h) (index p) < key kf (items h) (index s0))"
    have l: "h_Less kf h (index p) (index s0) = Some b"
      using h_Less_in_range[OF r assms(1), of kf] by (simp add: b_def)
    from Cons.prems False have nb: "(m = b) = False" by (simp add: b_def)
    from Cons.prems have "select kf h n m ps s0 = Some s0" by (intro Cons.IH) simp
    with False l nb show ?thesis by simp
  qed
qed

lemma down_noop:
  assumes n: "h_Len h < 2 ^ 60" and i: "in_range h i"
    and keep: "\<forall>c \<in> children i \<union> grandchildren i. c < h_Len h \<longrightarrow>
        isMinLevel i \<noteq> (key kf (items h) c < key kf (items h) i)"
  shows "down kf h i (h_Len h) = Some (h, False)"
proof -
  from i n have i0: "0 \<le> i" "i < 2 ^ 60" by (simp_all add: in_range_def)
  let ?s0 = "\<lparr>index = i, relation = self\<rparr>"
  note P = progenies_small[OF i0]
  have I: "index ` set (progenies i) = children i \<union> grandchildren i"
    by (simp add: P children_def grandchildren_def) blast
  have "\<forall>p \<in> set (progenies i). 0 \<le> index p \<and> index p < h_Len h \<longrightarrow>
           isMinLevel i \<noteq> (key kf (items h) (index p) < key kf (items h) (index ?s0))"
  proof (intro ballI impI)
    fix p assume p: "p \<in> set (progenies i)" "0 \<le> index p \<and> index p < h_Len h"
    from p(1) have "index p \<in> children i \<union> grandchildren i" unfolding I[symmetric] by (rule imageI)
    with keep p(2)
    show "isMinLevel i \<noteq> (key kf (items h) (index p) < key kf (items h) (index ?s0))" by simp
  qed
  moreover have "in_range h (index ?s0)" using i by simp
  ultimately have "select kf h (h_Len h) (isMinLevel i) (progenies i) ?s0 = Some ?s0"
    by (intro select_keep) simp_all
  then have "down_loop kf h (h_Len h) (isMinLevel i) i = Some (h, i)"
    by (subst down_loop.simps) simp
  then show ?thesis by (simp add: down_def)
qed

lemma up_noop:
  assumes i: "in_range h i"
    and par: "0 < i \<longrightarrow> isMinLevel i \<noteq> (key kf (items h) (parent i) < key kf (items h) i)"
    and gpar: "2 < i \<longrightarrow> isMinLevel i \<noteq> (key kf (items h) i < key kf (items h) (grandparent i))"
  shows "up kf h i = Some h"
proof -
  have loop: "up_loop kf h (isMinLevel i) i = Some h"
  proof (cases "hasGrandparent i")
    case False
    then show ?thesis by (subst up_loop.simps) simp
  next
    case True
    then have i2: "2 < i" by (simp add: hasGrandparent_def)
    from grandchild_of_grandparent[OF i2] i have r: "in_range h (grandparent i)"
      by (simp add: in_range_def)
    define b where "b = (key kf (items h) i < key kf (items h) (grandparent i))"
    have l: "h_Less kf h i (grandparent i) = Some b"
      using h_Less_in_range[OF i r, of kf] by (simp add: b_def)
    from gpar i2 have nb: "(isMinLevel i = b) = False" by (simp add: b_def)
    show ?thesis by (subst up_loop.simps) (simp add: True l nb)
  qed
  show ?thesis
  proof (cases "hasParent i")
    case False
    with loop show ?thesis by (simp add: up_def Let_def)
  next
    case True
    then have i0: "0 < i" by (simp add: hasParent_def)
    from child_of_parent[OF i0] i have r: "in_range h (parent i)"
      by (simp add: in_range_def)
    define b where "b = (key kf (items h) (parent i) < key kf (items h) i)"
    have l: "h_Less kf h (parent i) i = Some b"
      using h_Less_in_range[OF r i, of kf] by (simp add: b_def)
    from par i0 have nb: "(isMinLevel i = b) = False" by (simp add: b_def)
    show ?thesis by (simp add: up_def Let_def True l nb loop)
  qed
qed

text \<open>
  Where \<open>Fix\<close> does nothing.  On a sequence with the min-max heap property, \<open>Fix\<close> at an
  index of the sequence that lies on a min level, or whose key differs from the keys of
  its children, grandchildren, parent and grandparent, makes no \<open>Swap\<close> call and
  returns the sequence as it was.
\<close>

lemma Fix_unchanged:
  assumes inv: "mmheap kf (items h)" and i: "in_range h i" and n: "h_Len h < 2 ^ 60"
    and tf: "even (depth i) \<or> tie_free kf (items h) i"
  shows "Fix kf h i = Some h"
proof -
  let ?f = "key kf (items h)"
  from i n have i0: "0 \<le> i" "i < 2 ^ 63" "i < h_Len h" by (simp_all add: in_range_def)
  have m: "isMinLevel i = even (depth i)" by (rule isMinLevel_depth[OF i0(1,2)])
  from inv have hf: "heap_from ?f (h_Len h) 0" by (simp add: mmheap_heap_from h_Len_def)
  have ne: "?f j \<noteq> ?f i"
    if "\<not> even (depth i)" "0 \<le> j" "j < h_Len h"
      "j \<in> children i \<union> grandchildren i \<or> i \<in> children j \<union> grandchildren j" for j
  proof -
    from that(1) tf have "tie_free kf (items h) i" by simp
    moreover from that(2,3) have "j \<in> set [0..int (length (items h)) - 1]"
      by (simp add: h_Len_def)
    ultimately show ?thesis using that(4) unfolding tie_free_def key_def by blast
  qed
  have below: "isMinLevel i \<noteq> (?f c < ?f i)"
    if c: "c \<in> children i \<union> grandchildren i" "c < h_Len h" for c
  proof -
    from c(1) i0(1) have d: "descendant i c" and c0: "0 \<le> c"
      using descendant_child[of i c] descendant_grandchild[of i c] child_gt[of i c]
        grandchild_gt[of i c] by auto
    from heap_fromD[OF hf i0(1) c(2) d] have le: "le_dir (even (depth i)) (?f i) (?f c)" .
    show ?thesis
    proof (cases "even (depth i)")
      case True
      with le m show ?thesis by (auto simp: le_dir_def)
    next
      case False
      from ne[OF False c0 c(2)] c(1) have "?f c \<noteq> ?f i" by blast
      with le False m show ?thesis by (auto simp: le_dir_def)
    qed
  qed
  have d: "down kf h i (h_Len h) = Some (h, False)"
    by (rule down_noop[OF n i]) (use below in blast)
  have par: "isMinLevel i \<noteq> (?f (parent i) < ?f i)" if "0 < i"
  proof -
    from child_of_parent[OF that] have p: "0 \<le> parent i" "parent i < i" "i \<in> children (parent i)"
      by simp_all
    from descendant_child[OF p(1,3)] have dp: "descendant (parent i) i" .
    from heap_fromD[OF hf p(1) i0(3) dp] depth_child[OF p(1,3)]
    have le: "le_dir (\<not> even (depth i)) (?f (parent i)) (?f i)" by simp
    show ?thesis
    proof (cases "even (depth i)")
      case True
      with le m show ?thesis by (auto simp: le_dir_def)
    next
      case False
      from p i0(3) have "parent i < h_Len h" by simp
      from ne[OF False p(1) this] p(3) have "?f (parent i) \<noteq> ?f i" by blast
      with le False m show ?thesis by (auto simp: le_dir_def)
    qed
  qed
  have gpar: "isMinLevel i \<noteq> (?f i < ?f (grandparent i))" if "2 < i"
  proof -
    from grandchild_of_grandparent[OF that]
    have g: "0 \<le> grandparent i" "grandparent i < i" "i \<in> grandchildren (grandparent i)"
      by simp_all
    from descendant_grandchild[OF g(1,3)] have dg: "descendant (grandparent i) i" .
    from heap_fromD[OF hf g(1) i0(3) dg] depth_grandchild[OF g(1,3)]
    have le: "le_dir (even (depth i)) (?f (grandparent i)) (?f i)" by simp
    show ?thesis
    proof (cases "even (depth i)")
      case True
      with le m show ?thesis by (auto simp: le_dir_def)
    next
      case False
      from g i0(3) have "grandparent i < h_Len h" by simp
      from ne[OF False g(1) this] g(3) have "?f (grandparent i) \<noteq> ?f i" by blast
      with le False m show ?thesis by (auto simp: le_dir_def)
    qed
  qed
  have u: "up kf h i = Some h"
    by (rule up_noop[OF i]) (use par gpar in blast)+
  show ?thesis by (simp add: Fix_def d u)
qed

lemma Fix_unchanged_example:
  "mmheap (\<lambda>x. x) (items \<lparr>items = [1, 7, 9, 4, 7 :: int], nswaps = 0\<rparr>)
   \<and> in_range \<lparr>items = [1, 7, 9, 4, 7 :: int], nswaps = 0\<rparr> 2
   \<and> h_Len \<lparr>items = [1, 7, 9, 4, 7 :: int], nswaps = 0\<rparr> < 2 ^ 60
   \<and> (even (depth 2) \<or> tie_free (\<lambda>x. x) (items \<lparr>items = [1, 7, 9, 4, 7 :: int], nswaps = 0\<rparr>) 2)
   \<and> Fix (\<lambda>x. x) \<lparr>items = [1, 7, 9, 4, 7 :: int], nswaps = 0\<rparr> 2
       = Some \<lparr>items = [1, 7, 9, 4, 7 :: int], nswaps = 0\<rparr>"
proof -
  have a: "mmheap (\<lambda>x. x) (items \<lparr>items = [1, 7, 9, 4, 7 :: int], nswaps = 0\<rparr>)"
    by code_simp
  have b: "in_range \<lparr>items = [1, 7, 9, 4, 7 :: int], nswaps = 0\<rparr> 2"
    by (simp add: in_range_def h_Len_def)
  have c: "h_Len \<lparr>items = [1, 7, 9, 4, 7 :: int], nswaps = 0\<rparr> < 2 ^ 60"
    by (simp add: h_Len_def)
  have d: "even (depth 2) \<or> tie_free (\<lambda>x. x) (items \<lparr>items = [1, 7, 9, 4, 7 :: int], nswaps = 0\<rparr>) 2"
    by code_simp
  show ?thesis
    by (intro conjI a b c d Fix_unchanged [OF a b c d])
qed

text \<open>
  C7.  On a sequence with the min-max heap property, \<open>Fix\<close> at an index whose element did
  not change is to make no \<open>Swap\<close> call and leave the sequence as it is.  The code does
  otherwise where keys tie on a max level: there \<open>onMinLevel == h.Less(parent, on)\<close>
  holds although the parent is not more than the element, and \<open>up\<close> swaps the two.  On the
  two-element heap of equal keys, \<open>Fix\<close> at index 1 sifts nothing down, and then \<open>up\<close>
  makes one \<open>Swap\<close> call that exchanges the two elements; at index 0, on a min level, the
  same tie swaps nothing.
\<close>

theorem Fix_swaps_on_tie:
  "mmheap fst (items \<lparr>items = [(1 :: int, ''a''), (1, ''b'')], nswaps = 0\<rparr>)
   \<and> in_range \<lparr>items = [(1 :: int, ''a''), (1, ''b'')], nswaps = 0\<rparr> 1
   \<and> \<not> isMinLevel 1
   \<and> h_Less fst \<lparr>items = [(1 :: int, ''a''), (1, ''b'')], nswaps = 0\<rparr> 1 (parent 1) = Some False
   \<and> h_Less fst \<lparr>items = [(1 :: int, ''a''), (1, ''b'')], nswaps = 0\<rparr> (parent 1) 1 = Some False
   \<and> down fst \<lparr>items = [(1 :: int, ''a''), (1, ''b'')], nswaps = 0\<rparr> 1 (h_Len \<lparr>items = [(1 :: int, ''a''), (1, ''b'')], nswaps = 0\<rparr>) = Some (\<lparr>items = [(1 :: int, ''a''), (1, ''b'')], nswaps = 0\<rparr>, False)
   \<and> up fst \<lparr>items = [(1 :: int, ''a''), (1, ''b'')], nswaps = 0\<rparr> 1 = Some \<lparr>items = [(1, ''b''), (1, ''a'')], nswaps = 1\<rparr>
   \<and> Fix fst \<lparr>items = [(1 :: int, ''a''), (1, ''b'')], nswaps = 0\<rparr> 1 = Some \<lparr>items = [(1, ''b''), (1, ''a'')], nswaps = 1\<rparr>
   \<and> Fix fst \<lparr>items = [(1 :: int, ''a''), (1, ''b'')], nswaps = 0\<rparr> 1 \<noteq> Some \<lparr>items = [(1 :: int, ''a''), (1, ''b'')], nswaps = 0\<rparr>
   \<and> isMinLevel 0
   \<and> Fix fst \<lparr>items = [(1 :: int, ''a''), (1, ''b'')], nswaps = 0\<rparr> 0 = Some \<lparr>items = [(1 :: int, ''a''), (1, ''b'')], nswaps = 0\<rparr>"
  by code_simp

theorem Fix_swaps_on_tie_witness:
  "\<exists>h'. Fix fst \<lparr>items = [(1 :: int, ''a''), (1, ''b'')], nswaps = 0\<rparr> 1 = Some h'
     \<and> nswaps h' = 1
     \<and> items h' \<noteq> items \<lparr>items = [(1 :: int, ''a''), (1, ''b'')], nswaps = 0\<rparr>"
  using Fix_swaps_on_tie by simp

section \<open>One step of sifting up, on key functions\<close>

lemma up_exceptD:
  "up_except f n m on \<Longrightarrow> 0 \<le> i \<Longrightarrow> j < n \<Longrightarrow> descendant i j
     \<Longrightarrow> j \<noteq> on \<or> even (depth i) \<noteq> m \<Longrightarrow> le_dir (even (depth i)) (f i) (f j)"
  unfolding up_except_def by blast

lemma heap_butD:
  "heap_but f n on \<Longrightarrow> 0 \<le> i \<Longrightarrow> j < n \<Longrightarrow> descendant i j \<Longrightarrow> j \<noteq> on
     \<Longrightarrow> le_dir (even (depth i)) (f i) (f j)"
  unfolding heap_but_def by blast

lemma ancestors_above_parent:
  assumes "0 < on" "descendant i on"
  shows "i = parent on \<or> descendant i (parent on)"
proof -
  from child_of_parent[OF assms(1)] have p: "0 \<le> parent on" "on \<in> children (parent on)"
    by simp_all
  from assms(2) descendant_of_child[OF p, of i] show ?thesis by simp
qed

lemma ancestors_above_grandparent:
  assumes "2 < on" "descendant i on"
  shows "i = parent on \<or> i = grandparent on \<or> descendant i (grandparent on)"
proof -
  from assms(1) have on: "0 < on" by simp
  from child_of_parent[OF on] assms(1) have p: "0 < parent on" by (auto simp: children_def)
  from ancestors_above_parent[OF on assms(2)] ancestors_above_parent[OF p, of i]
  show ?thesis by (auto simp: grandparent_def)
qed

lemma depth_parent: "0 < on \<Longrightarrow> even (depth (parent on)) = (\<not> even (depth on))"
  using child_of_parent[of on] depth_child[of "parent on" on] by simp

lemma depth_grandparent: "2 < on \<Longrightarrow> even (depth (grandparent on)) = even (depth on)"
  using grandchild_of_grandparent[of on] depth_grandchild[of "grandparent on" on] by simp

lemma descendant_parent: "0 < on \<Longrightarrow> descendant (parent on) on"
  using child_of_parent[of on] descendant_child[of "parent on" on] by simp

lemma descendant_grandparent: "2 < on \<Longrightarrow> descendant (grandparent on) on"
  using grandchild_of_grandparent[of on] descendant_grandchild[of "grandparent on" on] by simp

lemma parent_below_grandparent: "2 < on \<Longrightarrow> descendant (grandparent on) (parent on)"
proof -
  assume a: "2 < on"
  then have on: "0 < on" by simp
  from child_of_parent[OF on] a have p: "0 < parent on" by (auto simp: children_def)
  from descendant_parent[OF p] show ?thesis by (simp add: grandparent_def)
qed

lemma up_stop_top:
  assumes U: "up_except f n m on" and m: "m = even (depth on)" and on: "0 \<le> on" "on \<le> 2"
  shows "heap_from f n 0"
  unfolding heap_from_def
proof (intro allI impI, elim conjE)
  fix i j assume ij: "0 \<le> i" "j < n" "descendant i j"
  have "j \<noteq> on \<or> even (depth i) \<noteq> m"
  proof (cases "j = on")
    case False
    then show ?thesis by simp
  next
    case True
    with ij(3) on descendant_less[OF ij(3)] have "i = 0" "on = 1 \<or> on = 2"
    proof -
      from True ij(3) descendant_ge[of i on] descendant_less[of i on] on
      show "i = 0" "on = 1 \<or> on = 2" by auto
    qed
    with m show ?thesis by auto
  qed
  from up_exceptD[OF U ij this] show "le_dir (even (depth i)) (f i) (f j)" .
qed

lemma up_stop:
  assumes U: "up_except f n m on" and m: "m = even (depth on)" and on: "2 < on" "on < n"
    and le: "le_dir m (f (grandparent on)) (f on)"
  shows "heap_from f n 0"
  unfolding heap_from_def
proof (intro allI impI, elim conjE)
  fix i j assume ij: "0 \<le> i" "j < n" "descendant i j"
  let ?g = "grandparent on"
  from grandchild_of_grandparent[OF on(1)] have g: "0 \<le> ?g" "?g < on" by simp_all
  show "le_dir (even (depth i)) (f i) (f j)"
  proof (cases "j = on \<and> even (depth i) = m")
    case False
    then have "j \<noteq> on \<or> even (depth i) \<noteq> m" by blast
    from up_exceptD[OF U ij this] show ?thesis .
  next
    case True
    with ij(3) have d: "descendant i on" by simp
    from ancestors_above_grandparent[OF on(1) d]
    consider "i = parent on" | "i = ?g" | "descendant i ?g" by blast
    then show ?thesis
    proof cases
      case 1
      with True depth_parent[of on] on(1) m show ?thesis by simp
    next
      case 2
      with True le show ?thesis by simp
    next
      case 3
      from g on(2) have "?g < n" by simp
      from up_exceptD[OF U ij(1) this 3] g have "le_dir (even (depth i)) (f i) (f ?g)" by simp
      with True le show ?thesis using le_dir_trans by blast
    qed
  qed
qed

lemma up_swap:
  assumes U: "up_except f n m on" and m: "m = even (depth on)" and on: "2 < on" "on < n"
    and le: "le_dir m (f on) (f (grandparent on))"
    and f': "f' (grandparent on) = f on" "f' on = f (grandparent on)"
      "\<forall>j. 0 \<le> j \<and> j \<noteq> on \<and> j \<noteq> grandparent on \<longrightarrow> f' j = f j"
  shows "up_except f' n m (grandparent on)"
  unfolding up_except_def
proof (intro allI impI, elim conjE)
  fix i j
  let ?g = "grandparent on" and ?p = "parent on"
  assume ij: "0 \<le> i" "j < n" "descendant i j" "\<not> (j = ?g \<and> even (depth i) = m)"
  from descendant_less[OF ij(3)] have lij: "i < j" by simp
  from grandchild_of_grandparent[OF on(1)] have g: "0 \<le> ?g" "?g < on" by simp_all
  from g on(2) have gn: "?g < n" by simp
  have dg: "even (depth ?g) = m" using depth_grandparent[OF on(1)] m by simp
  have dgo: "descendant ?g on" by (rule descendant_grandparent[OF on(1)])
  consider "i = ?g" | "i = on" | "i \<noteq> ?g" "i \<noteq> on" by blast
  then show "le_dir (even (depth i)) (f' i) (f' j)"
  proof cases
    case 1
    show ?thesis
    proof (cases "j = on")
      case True
      with 1 f' le dg show ?thesis by simp
    next
      case False
      with 1 lij g f' have fj: "f' j = f j" by simp
      from up_exceptD[OF U g(1) ij(2)] ij(3) 1 False have "le_dir m (f ?g) (f j)"
        using dg by simp
      with le have "le_dir m (f on) (f j)" by (rule le_dir_trans)
      with 1 fj f'(1) dg show ?thesis by simp
    qed
  next
    case 2
    with lij g f' have fj: "f' j = f j" by simp
    from 2 ij(3) dgo have "descendant ?g j" using descendant_trans by blast
    moreover from 2 lij have "j \<noteq> on" by simp
    ultimately have "le_dir m (f ?g) (f j)" using up_exceptD[OF U g(1) ij(2)] dg by simp
    with 2 fj f'(2) m show ?thesis by simp
  next
    case 3
    with ij(1) f' have fi: "f' i = f i" by simp
    consider "j = ?g" | "j = on" | "j \<noteq> ?g" "j \<noteq> on" by blast
    then show ?thesis
    proof cases
      case 1
      with ij(4) have lv: "even (depth i) \<noteq> m" by simp
      from 1 ij(3) dgo have "descendant i on" using descendant_trans by blast
      from up_exceptD[OF U ij(1) on(2) this] lv fi 1 f'(1) show ?thesis by simp
    next
      case 2
      with ij(3) have "descendant i on" by simp
      from ancestors_above_grandparent[OF on(1) this] 3
      consider "i = ?p" | "descendant i ?g" by blast
      then show ?thesis
      proof cases
        case 1
        from parent_below_grandparent[OF on(1)] have "descendant ?g ?p" .
        moreover from child_of_parent[of on] on have "?p < n" "?p \<noteq> on" by simp_all
        ultimately have "le_dir m (f ?g) (f ?p)" using up_exceptD[OF U g(1)] dg by simp
        then have "le_dir (\<not> m) (f ?p) (f ?g)" by (simp add: le_dir_flip)
        with 1 2 fi f'(2) depth_parent[of on] on(1) m show ?thesis by simp
      next
        case 2
        from up_exceptD[OF U ij(1) gn 2] g have "le_dir (even (depth i)) (f i) (f ?g)" by simp
        with \<open>j = on\<close> fi f'(2) show ?thesis by simp
      qed
    next
      case 3
      with lij ij(1) f' have "f' j = f j" by simp
      with up_exceptD[OF U ij(1,2,3)] 3 fi show ?thesis by simp
    qed
  qed
qed

lemma up_first_noswap:
  assumes B: "heap_but f n on" and m: "m = even (depth on)" and on: "0 < on" "on < n"
    and le: "le_dir m (f on) (f (parent on))"
  shows "up_except f n m on"
  unfolding up_except_def
proof (intro allI impI, elim conjE)
  fix i j
  let ?p = "parent on"
  assume ij: "0 \<le> i" "j < n" "descendant i j" "\<not> (j = on \<and> even (depth i) = m)"
  from child_of_parent[OF on(1)] have p: "0 \<le> ?p" "?p < on" by simp_all
  have dp: "even (depth ?p) = (\<not> m)" using depth_parent[OF on(1)] m by simp
  show "le_dir (even (depth i)) (f i) (f j)"
  proof (cases "j = on")
    case False
    from heap_butD[OF B ij(1,2,3) False] show ?thesis .
  next
    case True
    with ij(4) have lv: "even (depth i) = (\<not> m)" by simp
    from le have lp: "le_dir (\<not> m) (f ?p) (f on)" by (simp add: le_dir_flip)
    from True ij(3) ancestors_above_parent[OF on(1)]
    consider "i = ?p" | "descendant i ?p" by blast
    then show ?thesis
    proof cases
      case 1
      with lp True dp show ?thesis by simp
    next
      case 2
      from p on(2) have "?p < n" "?p \<noteq> on" by simp_all
      from heap_butD[OF B ij(1) this(1) 2 this(2)] lv have "le_dir (\<not> m) (f i) (f ?p)" by simp
      with lp True lv show ?thesis using le_dir_trans by fastforce
    qed
  qed
qed

lemma up_first_swap:
  assumes B: "heap_but f n on" and m: "m = even (depth on)" and on: "0 < on" "on < n"
    and below: "\<forall>j. j < n \<and> descendant on j \<longrightarrow> le_dir m (f on) (f j)"
    and le: "le_dir m (f (parent on)) (f on)"
    and f': "f' (parent on) = f on" "f' on = f (parent on)"
      "\<forall>j. 0 \<le> j \<and> j \<noteq> on \<and> j \<noteq> parent on \<longrightarrow> f' j = f j"
  shows "up_except f' n (\<not> m) (parent on)"
  unfolding up_except_def
proof (intro allI impI, elim conjE)
  fix i j
  let ?p = "parent on"
  assume ij: "0 \<le> i" "j < n" "descendant i j" "\<not> (j = ?p \<and> even (depth i) = (\<not> m))"
  from descendant_less[OF ij(3)] have lij: "i < j" by simp
  from child_of_parent[OF on(1)] have p: "0 \<le> ?p" "?p < on" by simp_all
  from p on(2) have pn: "?p < n" "?p \<noteq> on" by simp_all
  have dp: "even (depth ?p) = (\<not> m)" using depth_parent[OF on(1)] m by simp
  have dpo: "descendant ?p on" by (rule descendant_parent[OF on(1)])
  consider "i = ?p" | "i = on" | "i \<noteq> ?p" "i \<noteq> on" by blast
  then show "le_dir (even (depth i)) (f' i) (f' j)"
  proof cases
    case 1
    show ?thesis
    proof (cases "j = on")
      case True
      from le have "le_dir (\<not> m) (f on) (f ?p)" by (simp add: le_dir_flip)
      with 1 True f' dp show ?thesis by simp
    next
      case False
      with 1 lij p f' have fj: "f' j = f j" by simp
      from heap_butD[OF B p(1) ij(2)] ij(3) 1 False dp have "le_dir (\<not> m) (f ?p) (f j)" by simp
      moreover from le have "le_dir (\<not> m) (f on) (f ?p)" by (simp add: le_dir_flip)
      ultimately have "le_dir (\<not> m) (f on) (f j)" using le_dir_trans by blast
      with 1 fj f'(1) dp show ?thesis by simp
    qed
  next
    case 2
    with lij p f' have fj: "f' j = f j" by simp
    from below ij(2,3) 2 have "le_dir m (f on) (f j)" by simp
    with le have "le_dir m (f ?p) (f j)" by (rule le_dir_trans)
    with 2 fj f'(2) m show ?thesis by simp
  next
    case 3
    with ij(1) f' have fi: "f' i = f i" by simp
    consider "j = ?p" | "j = on" | "j \<noteq> ?p" "j \<noteq> on" by blast
    then show ?thesis
    proof cases
      case 1
      with ij(4) have lv: "even (depth i) = m" by simp
      from heap_butD[OF B ij(1) pn(1) _ pn(2)] 1 ij(3) lv have "le_dir m (f i) (f ?p)" by simp
      then have "le_dir m (f i) (f on)" using le by (rule le_dir_trans)
      with 1 fi f'(1) lv show ?thesis by simp
    next
      case 2
      with ij(3) ancestors_above_parent[OF on(1)] 3 have "descendant i ?p" by blast
      from heap_butD[OF B ij(1) pn(1) this pn(2)] 2 fi f'(2) show ?thesis by simp
    next
      case 3
      with lij ij(1) f' have "f' j = f j" by simp
      with heap_butD[OF B ij(1,2,3)] 3 fi show ?thesis by simp
    qed
  qed
qed

section \<open>Sifting up restores the property\<close>

lemma up_loop_correct:
  assumes "in_range h on" "up_except (key kf (items h)) (h_Len h) m on" "m = even (depth on)"
  shows "\<exists>h'. up_loop kf h m on = Some h' \<and> h_Len h' = h_Len h
      \<and> mset (items h') = mset (items h) \<and> heap_from (key kf (items h')) (h_Len h) 0"
  using assms
proof (induction "nat on" arbitrary: h on rule: less_induct)
  case less
  let ?f = "key kf (items h)"
  let ?n = "h_Len h"
  from less.prems(1) have on: "0 \<le> on" "on < ?n" by (simp_all add: in_range_def)
  show ?case
  proof (cases "hasGrandparent on")
    case False
    then have "on \<le> 2" by (simp add: hasGrandparent_def)
    from up_stop_top[OF less.prems(2,3) on(1) this] have "heap_from ?f ?n 0" .
    moreover have "up_loop kf h m on = Some h" using False by (subst up_loop.simps) simp
    ultimately show ?thesis by simp
  next
    case True
    then have on2: "2 < on" by (simp add: hasGrandparent_def)
    let ?gp = "grandparent on"
    from grandchild_of_grandparent[OF on2] have gp: "0 \<le> ?gp" "?gp < on" by simp_all
    with less.prems(1) have r: "in_range h ?gp" by (simp add: in_range_def)
    define b where "b = (?f on < ?f ?gp)"
    have l: "h_Less kf h on ?gp = Some b"
      using h_Less_in_range[OF less.prems(1) r, of kf] by (simp add: b_def)
    show ?thesis
    proof (cases "m = b")
      case False
      then have nb: "(m = b) = False" by simp
      from False have "le_dir m (?f ?gp) (?f on)" unfolding b_def by (rule le_dir_not_sel)
      from up_stop[OF less.prems(2,3) on2 on(2) this] have "heap_from ?f ?n 0" .
      moreover have "up_loop kf h m on = Some h"
        by (subst up_loop.simps) (simp add: True l nb)
      ultimately show ?thesis by simp
    next
      case mb: True
      then have bm: "b = m" by simp
      from mb have le: "le_dir m (?f on) (?f ?gp)" unfolding b_def by (rule le_dir_sel)
      from h_Swap_in_range[OF less.prems(1) r] obtain h1 where
        h1: "h_Swap h on ?gp = Some h1" "h_Len h1 = h_Len h" "mset (items h1) = mset (items h)"
          "\<forall>x. 0 \<le> x \<longrightarrow> items h1 ! nat x =
             (if x = ?gp then items h ! nat on else if x = on then items h ! nat ?gp
              else items h ! nat x)"
        by blast
      let ?f1 = "key kf (items h1)"
      have f1: "?f1 ?gp = ?f on" "?f1 on = ?f ?gp"
        "\<forall>j. 0 \<le> j \<and> j \<noteq> on \<and> j \<noteq> ?gp \<longrightarrow> ?f1 j = ?f j"
        using key_swapped[OF h1(4), of _ kf] on(1) gp by simp_all
      from up_swap[OF less.prems(2,3) on2 on(2) le f1] h1(2)
      have U1: "up_except ?f1 (h_Len h1) m ?gp" by simp
      from r h1(2) have r1: "in_range h1 ?gp" by (simp add: in_range_def)
      have m1: "m = even (depth ?gp)" using depth_grandparent[OF on2] less.prems(3) by simp
      have "nat ?gp < nat on" using gp by simp
      from less.hyps[OF this r1 U1 m1] obtain h' where
        rec: "up_loop kf h1 m ?gp = Some h'" "h_Len h' = h_Len h1"
          "mset (items h') = mset (items h1)" "heap_from (key kf (items h')) (h_Len h1) 0"
        by blast
      have "up_loop kf h m on = Some h'"
        by (subst up_loop.simps) (simp add: True l bm h1(1) rec(1))
      with rec h1 show ?thesis by simp
    qed
  qed
qed

lemma up_correct:
  assumes r: "in_range h on" and small: "on < 2 ^ 63"
    and B: "heap_but (key kf (items h)) (h_Len h) on"
    and below: "\<forall>j. j < h_Len h \<and> descendant on j \<longrightarrow>
        le_dir (even (depth on)) (key kf (items h) on) (key kf (items h) j)"
  shows "\<exists>h'. up kf h on = Some h' \<and> h_Len h' = h_Len h
      \<and> mset (items h') = mset (items h) \<and> mmheap kf (items h')"
proof -
  let ?f = "key kf (items h)"
  let ?n = "h_Len h"
  let ?m = "even (depth on)"
  from r have on: "0 \<le> on" "on < ?n" by (simp_all add: in_range_def)
  have m: "isMinLevel on = ?m" by (rule isMinLevel_depth[OF on(1) small])
  have fin: "\<exists>h'. up kf h on = Some h' \<and> h_Len h' = h_Len h
      \<and> mset (items h') = mset (items h) \<and> mmheap kf (items h')"
    if "up kf h on = Some h'" "h_Len h' = ?n" "mset (items h') = mset (items h)"
      "heap_from (key kf (items h')) ?n 0" for h'
  proof -
    from that(2,4) have "mmheap kf (items h')" by (simp add: mmheap_heap_from h_Len_def)
    with that show ?thesis by blast
  qed
  show ?thesis
  proof (cases "hasParent on")
    case False
    then have on0: "on = 0" using on by (simp add: hasParent_def)
    have "up_except ?f ?n ?m on"
      unfolding up_except_def using heap_butD[OF B] descendant_less on0 by fastforce
    from up_loop_correct[OF r this refl] obtain h' where
      "up_loop kf h ?m on = Some h'" "h_Len h' = ?n" "mset (items h') = mset (items h)"
      "heap_from (key kf (items h')) ?n 0"
      by blast
    moreover have "up kf h on = up_loop kf h ?m on" using False m by (simp add: up_def Let_def)
    ultimately show ?thesis using fin by simp
  next
    case True
    then have on1: "0 < on" by (simp add: hasParent_def)
    let ?p = "parent on"
    from child_of_parent[OF on1] have p: "0 \<le> ?p" "?p < on" by simp_all
    with r have rp: "in_range h ?p" by (simp add: in_range_def)
    define b where "b = (?f ?p < ?f on)"
    have l: "h_Less kf h ?p on = Some b"
      using h_Less_in_range[OF rp r, of kf] by (simp add: b_def)
    show ?thesis
    proof (cases "?m = b")
      case False
      then have nb: "(?m = b) = False" by simp
      from False have "le_dir ?m (?f on) (?f ?p)" unfolding b_def by (rule le_dir_not_sel)
      from up_first_noswap[OF B refl on1 on(2) this] have "up_except ?f ?n ?m on" .
      from up_loop_correct[OF r this refl] obtain h' where
        "up_loop kf h ?m on = Some h'" "h_Len h' = ?n" "mset (items h') = mset (items h)"
        "heap_from (key kf (items h')) ?n 0"
        by blast
      moreover have "up kf h on = up_loop kf h ?m on"
        by (simp add: up_def Let_def True l m nb)
      ultimately show ?thesis using fin by simp
    next
      case mb: True
      then have bm: "b = ?m" by simp
      from mb have le: "le_dir ?m (?f ?p) (?f on)" unfolding b_def by (rule le_dir_sel)
      from h_Swap_in_range[OF r rp] obtain h1 where
        h1: "h_Swap h on ?p = Some h1" "h_Len h1 = h_Len h" "mset (items h1) = mset (items h)"
          "\<forall>x. 0 \<le> x \<longrightarrow> items h1 ! nat x =
             (if x = ?p then items h ! nat on else if x = on then items h ! nat ?p
              else items h ! nat x)"
        by blast
      let ?f1 = "key kf (items h1)"
      have f1: "?f1 ?p = ?f on" "?f1 on = ?f ?p"
        "\<forall>j. 0 \<le> j \<and> j \<noteq> on \<and> j \<noteq> ?p \<longrightarrow> ?f1 j = ?f j"
        using key_swapped[OF h1(4), of _ kf] on(1) p by simp_all
      from up_first_swap[OF B refl on1 on(2) below le f1] h1(2)
      have U1: "up_except ?f1 (h_Len h1) (\<not> ?m) ?p" by simp
      from rp h1(2) have r1: "in_range h1 ?p" by (simp add: in_range_def)
      have m1: "(\<not> ?m) = even (depth ?p)" using depth_parent[OF on1] by simp
      from up_loop_correct[OF r1 U1 m1] obtain h' where
        rec: "up_loop kf h1 (\<not> ?m) ?p = Some h'" "h_Len h' = h_Len h1"
          "mset (items h') = mset (items h1)" "heap_from (key kf (items h')) (h_Len h1) 0"
        by blast
      have "up kf h on = up_loop kf h1 (\<not> ?m) ?p"
        by (simp add: up_def Let_def True l m bm h1(1))
      with rec h1 fin show ?thesis by simp
    qed
  qed
qed

text \<open>\<open>Push\<close> on a sequence with the property returns one with the property.\<close>

lemma Push_correct:
  assumes inv: "mmheap kf (items h)" and small: "h_Len h < 2 ^ 60"
  shows "\<exists>h'. Push kf h x = Some h' \<and> mmheap kf (items h')
      \<and> mset (items h') = add_mset x (mset (items h))
      \<and> length (items h') = Suc (length (items h))"
proof -
  let ?h1 = "h_Push h x"
  let ?n = "h_Len h"
  have l1: "h_Len ?h1 = ?n + 1" by (simp add: h_Push_def h_Len_def)
  have n0: "0 \<le> ?n" by (simp add: h_Len_def)
  from l1 n0 have r: "in_range ?h1 ?n" by (simp add: in_range_def)
  from inv have hf: "heap_from (key kf (items h)) ?n 0" by (simp add: mmheap_heap_from h_Len_def)
  have same: "key kf (items ?h1) j = key kf (items h) j" if "0 \<le> j" "j < ?n" for j
    using that by (simp add: key_def h_Push_def nth_append h_Len_def nat_less_iff)
  have B: "heap_but (key kf (items ?h1)) (h_Len ?h1) ?n"
    unfolding heap_but_def
  proof (intro allI impI, elim conjE)
    fix i j assume ij: "0 \<le> i" "j < h_Len ?h1" "descendant i j" "j \<noteq> ?n"
    from descendant_less[OF ij(3)] ij(2,4) l1 have b: "i < j" "j < ?n" "0 \<le> j" "i < ?n" by simp_all
    from heap_fromD[OF hf ij(1) b(2) ij(3)] same[OF ij(1) b(4)] same[OF b(3,2)]
    show "le_dir (even (depth i)) (key kf (items ?h1) i) (key kf (items ?h1) j)" by simp
  qed
  have below: "\<forall>j. j < h_Len ?h1 \<and> descendant ?n j \<longrightarrow>
        le_dir (even (depth ?n)) (key kf (items ?h1) ?n) (key kf (items ?h1) j)"
    using descendant_less l1 by fastforce
  from small have "?n < 2 ^ 63" by simp
  from up_correct[OF r this B below] obtain h' where
    u: "up kf ?h1 ?n = Some h'" "h_Len h' = h_Len ?h1" "mset (items h') = mset (items ?h1)"
      "mmheap kf (items h')"
    by blast
  have "Push kf h x = Some h'" using u(1) l1 by (simp add: Push_def Let_def)
  moreover have "mset (items h') = add_mset x (mset (items h))"
    using u(3) by (simp add: h_Push_def)
  moreover have "length (items h') = Suc (length (items h))"
    using u(2) l1 by (simp add: h_Len_def)
  ultimately show ?thesis using u(4) by blast
qed

text \<open>\<open>Fix\<close> on a sequence with the property returns one with the property.\<close>

lemma Fix_keeps_heap:
  assumes inv: "mmheap kf (items h)" and small: "h_Len h < 2 ^ 60" and i: "in_range h i"
  shows "\<exists>h'. Fix kf h i = Some h' \<and> mmheap kf (items h')
      \<and> mset (items h') = mset (items h)"
proof -
  let ?n = "h_Len h"
  let ?f = "key kf (items h)"
  from i small have b: "?n \<le> ?n" "?n < 2 ^ 60" "0 \<le> i" "i < 2 ^ 63"
    by (simp_all add: in_range_def)
  from inv have hf: "heap_from ?f ?n 0" by (simp add: mmheap_heap_from h_Len_def)
  then have he: "heap_except ?f ?n 0 i"
    unfolding heap_from_def heap_except_def by blast
  from down_correct[OF b, of kf] obtain h1 on' where
    d: "down kf h i ?n = Some (h1, i < on')"
      "sifted_down kf h ?n (even (depth i)) i h1 on'"
    by blast
  from d(2) he b(3) have h1: "h_Len h1 = ?n" "mset (items h1) = mset (items h)"
    "on' = i \<longrightarrow> h1 = h" "i \<le> on'" "heap_from (key kf (items h1)) ?n 0"
    unfolding sifted_down_def by blast+
  show ?thesis
  proof (cases "i < on'")
    case True
    from h1(1,5) have "mmheap kf (items h1)" by (simp add: mmheap_heap_from h_Len_def)
    with True d(1) h1(2) show ?thesis by (simp add: Fix_def)
  next
    case False
    with h1(3,4) have eq: "h1 = h" by simp
    have B: "heap_but ?f ?n i"
      using hf unfolding heap_from_def heap_but_def by blast
    have below: "\<forall>j. j < ?n \<and> descendant i j \<longrightarrow> le_dir (even (depth i)) (?f i) (?f j)"
      using heap_fromD[OF hf b(3)] by blast
    from up_correct[OF i b(4) B below] obtain h' where
      u: "up kf h i = Some h'" "mset (items h') = mset (items h)" "mmheap kf (items h')"
      by blast
    with False d(1) eq show ?thesis by (simp add: Fix_def)
  qed
qed

text \<open>
  Together: \<open>Init\<close> establishes the property, and \<open>Push\<close>, \<open>Pop\<close> and \<open>Fix\<close> keep it.
\<close>

lemma property_kept:
  assumes "h_Len h < 2 ^ 60"
  shows "\<exists>h'. Init kf h = Some h' \<and> mmheap kf (items h')"
    and "mmheap kf (items h) \<Longrightarrow> \<exists>h'. Push kf h x = Some h' \<and> mmheap kf (items h')"
    and "mmheap kf (items h) \<Longrightarrow> items h \<noteq> [] \<Longrightarrow>
           \<exists>v h'. Pop kf h = Some (v, h') \<and> mmheap kf (items h')"
    and "mmheap kf (items h) \<Longrightarrow> in_range h i \<Longrightarrow>
           \<exists>h'. Fix kf h i = Some h' \<and> mmheap kf (items h')"
proof -
  from Init_correct[OF assms, of kf]
  show "\<exists>h'. Init kf h = Some h' \<and> mmheap kf (items h')" by blast
next
  assume "mmheap kf (items h)"
  from Push_correct[OF this assms, of x]
  show "\<exists>h'. Push kf h x = Some h' \<and> mmheap kf (items h')" by blast
next
  assume a: "mmheap kf (items h)" "items h \<noteq> []"
  from Pop_correct[OF a assms] obtain h2 where
    "Pop kf h = Some (items h ! 0, h2\<lparr>items := butlast (items h2)\<rparr>)"
    "mmheap kf (butlast (items h2))"
    by blast
  then have "Pop kf h = Some (items h ! 0, h2\<lparr>items := butlast (items h2)\<rparr>)
      \<and> mmheap kf (items (h2\<lparr>items := butlast (items h2)\<rparr>))"
    by simp
  then show "\<exists>v h'. Pop kf h = Some (v, h') \<and> mmheap kf (items h')" by blast
next
  assume a: "mmheap kf (items h)" "in_range h i"
  from Fix_keeps_heap[OF a(1) assms a(2)]
  show "\<exists>h'. Fix kf h i = Some h' \<and> mmheap kf (items h')" by blast
qed

section \<open>Remove\<close>

text \<open>\<open>up\<close> from \<open>on\<close> leaves the elements after \<open>on\<close> alone.\<close>

lemma up_loop_frame:
  assumes "in_range h on" "up_loop kf h m on = Some h'" "on < j"
  shows "items h' ! nat j = items h ! nat j"
  using assms
proof (induction "nat on" arbitrary: h on rule: less_induct)
  case less
  show ?case
  proof (cases "hasGrandparent on")
    case False
    with less.prems(2) show ?thesis by (subst (asm) up_loop.simps) simp
  next
    case True
    then have on: "2 < on" by (simp add: hasGrandparent_def)
    let ?gp = "grandparent on"
    from grandchild_of_grandparent[OF on] have gp: "0 \<le> ?gp" "?gp < on" by simp_all
    with less.prems(1) have r: "in_range h ?gp" by (simp add: in_range_def)
    define b where "b = (key kf (items h) on < key kf (items h) ?gp)"
    have l: "h_Less kf h on ?gp = Some b"
      using h_Less_in_range[OF less.prems(1) r, of kf] by (simp add: b_def)
    show ?thesis
    proof (cases "m = b")
      case False
      then have nb: "(m = b) = False" by simp
      have "up_loop kf h m on = Some h"
        by (subst up_loop.simps) (simp add: True l nb)
      with less.prems(2) show ?thesis by simp
    next
      case mb: True
      then have bm: "b = m" by simp
      from h_Swap_in_range[OF less.prems(1) r] obtain h1 where
        h1: "h_Swap h on ?gp = Some h1" "h_Len h1 = h_Len h"
          "\<forall>x. 0 \<le> x \<longrightarrow> items h1 ! nat x =
             (if x = ?gp then items h ! nat on else if x = on then items h ! nat ?gp
              else items h ! nat x)"
        by blast
      from r h1(2) have r1: "in_range h1 ?gp" by (simp add: in_range_def)
      have "up_loop kf h m on = up_loop kf h1 m ?gp"
        by (subst up_loop.simps) (simp add: True l bm h1(1))
      with less.prems(2) have rec: "up_loop kf h1 m ?gp = Some h'" by simp
      have "nat ?gp < nat on" using gp by simp
      moreover have "?gp < j" using gp less.prems(3) by simp
      ultimately have "items h' ! nat j = items h1 ! nat j"
        using less.hyps[OF _ r1 rec] by blast
      also have "\<dots> = items h ! nat j" using h1(3) gp less.prems(3) by simp
      finally show ?thesis .
    qed
  qed
qed

lemma up_frame:
  assumes "in_range h on" "up kf h on = Some h'" "on < j"
  shows "items h' ! nat j = items h ! nat j"
proof (cases "hasParent on")
  case False
  with assms(2) have "up_loop kf h (isMinLevel on) on = Some h'" by (simp add: up_def Let_def)
  from up_loop_frame[OF assms(1) this assms(3)] show ?thesis .
next
  case True
  then have on: "0 < on" by (simp add: hasParent_def)
  let ?p = "parent on"
  from child_of_parent[OF on] have p: "0 \<le> ?p" "?p < on" by simp_all
  with assms(1) have r: "in_range h ?p" by (simp add: in_range_def)
  define b where "b = (key kf (items h) ?p < key kf (items h) on)"
  have l: "h_Less kf h ?p on = Some b"
    using h_Less_in_range[OF r assms(1), of kf] by (simp add: b_def)
  show ?thesis
  proof (cases "isMinLevel on = b")
    case False
    then have nb: "(isMinLevel on = b) = False" by simp
    have "up kf h on = up_loop kf h (isMinLevel on) on"
      by (simp add: up_def Let_def True l nb)
    with assms(2) have "up_loop kf h (isMinLevel on) on = Some h'" by simp
    from up_loop_frame[OF assms(1) this assms(3)] show ?thesis .
  next
    case mb: True
    from h_Swap_in_range[OF assms(1) r] obtain h1 where
      h1: "h_Swap h on ?p = Some h1" "h_Len h1 = h_Len h"
        "\<forall>x. 0 \<le> x \<longrightarrow> items h1 ! nat x =
           (if x = ?p then items h ! nat on else if x = on then items h ! nat ?p
            else items h ! nat x)"
      by blast
    from r h1(2) have r1: "in_range h1 ?p" by (simp add: in_range_def)
    have "up kf h on = up_loop kf h1 (\<not> isMinLevel on) ?p"
      using mb by (simp add: up_def Let_def True l h1(1))
    with assms(2) have "up_loop kf h1 (\<not> isMinLevel on) ?p = Some h'" by simp
    moreover have "?p < j" using p assms(3) by simp
    ultimately have "items h' ! nat j = items h1 ! nat j" using up_loop_frame[OF r1] by blast
    also have "\<dots> = items h ! nat j" using h1(3) p assms(3) by simp
    finally show ?thesis .
  qed
qed

text \<open>
  \<open>Remove\<close> at an index of the sequence returns the value that was there and a
  sequence one shorter, holding the other values.
\<close>

lemma Remove_value_length:
  assumes i: "in_range h i" and small: "h_Len h < 2 ^ 60"
  shows "\<exists>h'. Remove kf h i = Some (items h ! nat i, h')
      \<and> length (items h') = length (items h) - 1
      \<and> mset (items h) = add_mset (items h ! nat i) (mset (items h'))"
proof -
  let ?n = "h_Len h - 1"
  from i have ne: "items h \<noteq> []" and i0: "0 \<le> i" "i \<le> ?n" and n0: "0 \<le> ?n"
    by (auto simp: in_range_def h_Len_def)
  have nn: "nat ?n = length (items h) - 1" by (simp add: h_Len_def)
  have "\<exists>h3. (if ?n \<noteq> i then
                 do {
                   h1 \<leftarrow> h_Swap h i ?n;
                   (h2, moved) \<leftarrow> down kf h1 i ?n;
                   if \<not> moved then up kf h2 i else Some h2
                 }
               else Some h) = Some h3
      \<and> h_Len h3 = h_Len h \<and> mset (items h3) = mset (items h)
      \<and> items h3 ! nat ?n = items h ! nat i"
  proof (cases "?n = i")
    case True
    then show ?thesis by simp
  next
    case False
    from n0 have rn: "in_range h ?n" by (simp add: in_range_def)
    from h_Swap_in_range[OF i rn] obtain h1 where
      h1: "h_Swap h i ?n = Some h1" "h_Len h1 = h_Len h" "mset (items h1) = mset (items h)"
        "\<forall>x. 0 \<le> x \<longrightarrow> items h1 ! nat x =
           (if x = ?n then items h ! nat i else if x = i then items h ! nat ?n
            else items h ! nat x)"
      by blast
    from h1(4) n0 have at_n: "items h1 ! nat ?n = items h ! nat i" by simp
    from i small h1(2) have b: "?n \<le> h_Len h1" "h_Len h1 < 2 ^ 60" "0 \<le> i" "i < 2 ^ 63"
      by (simp_all add: in_range_def)
    from down_correct[OF b, of kf] obtain h2 on' where
      d: "down kf h1 i ?n = Some (h2, i < on')"
        "sifted_down kf h1 ?n (even (depth i)) i h2 on'"
      by blast
    from d(2) have h2: "h_Len h2 = h_Len h1" "mset (items h2) = mset (items h1)"
      "\<forall>j. 0 \<le> j \<and> (j < i \<or> ?n \<le> j) \<longrightarrow> items h2 ! nat j = items h1 ! nat j"
      unfolding sifted_down_def by blast+
    from h2(3) n0 at_n have at_n2: "items h2 ! nat ?n = items h ! nat i" by simp
    show ?thesis
    proof (cases "i < on'")
      case True
      with False h1(1) d(1) h2 h1(2,3) at_n2 show ?thesis by simp
    next
      case nm: False
      from i h2(1) h1(2) have r2: "in_range h2 i" by (simp add: in_range_def)
      from up_perm[OF r2, of kf] obtain h3 where
        u: "up kf h2 i = Some h3" "h_Len h3 = h_Len h2" "mset (items h3) = mset (items h2)"
        by blast
      from False i0 have "i < ?n" by simp
      from up_frame[OF r2 u(1) this] at_n2 have "items h3 ! nat ?n = items h ! nat i" by simp
      with False nm h1(1) d(1) u h2 h1(2,3) show ?thesis by simp
    qed
  qed
  then obtain h3 where
    h3: "(if ?n \<noteq> i then
                 do {
                   h1 \<leftarrow> h_Swap h i ?n;
                   (h2, moved) \<leftarrow> down kf h1 i ?n;
                   if \<not> moved then up kf h2 i else Some h2
                 }
               else Some h) = Some h3"
      "h_Len h3 = h_Len h" "mset (items h3) = mset (items h)"
      "items h3 ! nat ?n = items h ! nat i"
    by blast
  from h3(2) ne have ne3: "items h3 \<noteq> []" and l3: "length (items h3) = length (items h)"
    by (auto simp: h_Len_def)
  have "last (items h3) = items h3 ! nat ?n" using ne3 l3 nn by (simp add: last_conv_nth)
  with h3(4) have last: "last (items h3) = items h ! nat i" by simp
  have pop: "h_Pop h3 = Some (items h ! nat i, h3\<lparr>items := butlast (items h3)\<rparr>)"
    using ne3 last by (simp add: h_Pop_def)
  have R: "Remove kf h i = Some (items h ! nat i, h3\<lparr>items := butlast (items h3)\<rparr>)"
    unfolding Remove_def Let_def h3(1) by (simp add: pop)
  have "items h3 = butlast (items h3) @ [last (items h3)]" using ne3 by simp
  then have "mset (items h3) = add_mset (last (items h3)) (mset (butlast (items h3)))"
    by (metis mset.simps(1) mset.simps(2) mset_append union_mset_add_mset_right add.right_neutral)
  with h3(3) last
  have "mset (items h) = add_mset (items h ! nat i) (mset (items (h3\<lparr>items := butlast (items h3)\<rparr>)))"
    by simp
  moreover have "length (items (h3\<lparr>items := butlast (items h3)\<rparr>)) = length (items h) - 1"
    using l3 by simp
  ultimately show ?thesis using R by blast
qed

text \<open>
  C1.  The min-max heap property is to hold after \<open>Init\<close> and after every \<open>Push\<close>,
  \<open>Pop\<close>, \<open>Remove\<close> and \<open>Fix\<close> on a sequence that has it.  \<open>Remove\<close> does not keep it:
  when \<open>down\<close> has moved the element that replaced the removed one, \<open>up\<close> is not called,
  and the element may be out of order with an ancestor of the removed index.  Here
  removing index 3 brings 20 below index 1, a max level holding 10; once the maximum 30
  is removed as well, \<open>Max\<close> answers index 1, which holds 10, while 20 is in the sequence.
  (\<open>Init\<close>, \<open>Push\<close>, \<open>Pop\<close> and \<open>Fix\<close> do keep the property: \<open>property_kept\<close>.)
\<close>

theorem Remove_breaks_heap:
  "mmheap (\<lambda>x. x) (items \<lparr>items = [1, 10, 30, 2, 3, 4, 5, 8, 9, 7, 6, 20 :: int], nswaps = 0\<rparr>)
   \<and> in_range \<lparr>items = [1, 10, 30, 2, 3, 4, 5, 8, 9, 7, 6, 20 :: int], nswaps = 0\<rparr> 3
   \<and> Remove (\<lambda>x. x) \<lparr>items = [1, 10, 30, 2, 3, 4, 5, 8, 9, 7, 6, 20 :: int], nswaps = 0\<rparr> 3
       = Some (2, \<lparr>items = [1, 10, 30, 8, 3, 4, 5, 20, 9, 7, 6], nswaps = 2\<rparr>)
   \<and> \<not> mmheap (\<lambda>x. x) [1, 10, 30, 8, 3, 4, 5, 20, 9, 7, 6 :: int]
   \<and> Remove (\<lambda>x. x) \<lparr>items = [1, 10, 30, 8, 3, 4, 5, 20, 9, 7, 6 :: int], nswaps = 2\<rparr> 2
       = Some (30, \<lparr>items = [1, 10, 6, 8, 3, 4, 5, 20, 9, 7], nswaps = 3\<rparr>)
   \<and> Max_index (\<lambda>x. x) \<lparr>items = [1, 10, 6, 8, 3, 4, 5, 20, 9, 7 :: int], nswaps = 3\<rparr> = Some 1"
  by code_simp

theorem Remove_breaks_heap_witness:
  "\<exists>v h'. Remove (\<lambda>x. x) \<lparr>items = [1, 10, 30, 2, 3, 4, 5, 8, 9, 7, 6, 20 :: int], nswaps = 0\<rparr> 3
       = Some (v, h') \<and> \<not> mmheap (\<lambda>x. x) (items h')"
  using Remove_breaks_heap by simp

text \<open>
  \<open>Fix\<close> has the same pattern.  On a sequence that has the property it keeps it
  (\<open>Fix_keeps_heap\<close>); after the key at index 3 of the heap \<open>[1, 10, 9, 2, 3, 4, 5, 8]\<close> was
  raised to 20 it does not restore it.
\<close>

lemma Fix_after_key_change:
  "mmheap (\<lambda>x. x) [1, 10, 9, 2, 3, 4, 5, 8 :: int]
   \<and> Fix (\<lambda>x. x) \<lparr>items = [1, 10, 9, 20, 3, 4, 5, 8 :: int], nswaps = 0\<rparr> 3
       = Some \<lparr>items = [1, 10, 9, 8, 3, 4, 5, 20], nswaps = 1\<rparr>
   \<and> \<not> mmheap (\<lambda>x. x) [1, 10, 9, 8, 3, 4, 5, 20 :: int]"
  by code_simp

text \<open>
  C6.  \<open>Remove\<close> at an index of a sequence with the property is to shorten it by one,
  return the value that was at the index and leave the property holding.  The first two
  hold (\<open>Remove_value_length\<close>), the third does not: on this sequence \<open>Remove\<close> returns
  the value 10 of index 3 and leaves eleven elements, but index 7, which lies below
  index 1, then holds 80 while index 1, on a max level, holds 50.
\<close>

theorem Remove_leaves_no_heap:
  "mmheap (\<lambda>x. x) (items \<lparr>items = [0, 50, 90, 10, 20, 30, 40, 45, 48, 25, 22, 80 :: int], nswaps = 0\<rparr>)
   \<and> in_range \<lparr>items = [0, 50, 90, 10, 20, 30, 40, 45, 48, 25, 22, 80 :: int], nswaps = 0\<rparr> 3
   \<and> Remove (\<lambda>x. x) \<lparr>items = [0, 50, 90, 10, 20, 30, 40, 45, 48, 25, 22, 80 :: int], nswaps = 0\<rparr> 3
       = Some (10, \<lparr>items = [0, 50, 90, 45, 20, 30, 40, 80, 48, 25, 22], nswaps = 2\<rparr>)
   \<and> descendant 1 7 \<and> odd (depth 1)
   \<and> \<not> ordered (\<lambda>x. x) [0, 50, 90, 45, 20, 30, 40, 80, 48, 25, 22 :: int] 1 7
   \<and> \<not> mmheap (\<lambda>x. x) [0, 50, 90, 45, 20, 30, 40, 80, 48, 25, 22 :: int]"
  by code_simp

theorem Remove_leaves_no_heap_witness:
  "\<exists>v h'. Remove (\<lambda>x. x) \<lparr>items = [0, 50, 90, 10, 20, 30, 40, 45, 48, 25, 22, 80 :: int], nswaps = 0\<rparr> 3
       = Some (v, h') \<and> v = 10 \<and> length (items h') = 11 \<and> \<not> mmheap (\<lambda>x. x) (items h')"
  using Remove_leaves_no_heap by simp

end
